theory Spec2Isabelle
  imports Main "HOL-Library.Word"
begin

unbundle bit_operations_syntax

section \<open>The sparse-file stress tool (hcsvm.go): data\<close>

text \<open>
  The program creates a sparse file, writes checksummed blocks to it at sequential, random
  or "stream" offsets, then scans the file and verifies every non-zero block.  Bytes are
  8-bit words, the checksum is a 32-bit word.  The Go integers (\<open>int\<close>, \<open>int64\<close>) are
  modelled as \<open>int\<close>; where the 64-bit arithmetic of the write loop can leave the range
  it is wrapped by \<open>wrap64\<close>.
\<close>

type_synonym byte = "8 word"
type_synonym uint32 = "32 word"

text \<open>How a run ends early: \<open>log.Fatal\<close> calls and runtime panics.\<close>

datatype fatal =
    BlocksizeNotSmaller        \<comment> \<open>"Blocksize should be smaller than filesize"\<close>
  | StreamMinNotLess           \<comment> \<open>"stream-min should be less than stream-max"\<close>
  | FilesizeTooSmall           \<comment> \<open>"Filesize too small"\<close>
  | OpenFile                   \<comment> \<open>"Open file:"\<close>
  | FtruncateFailed            \<comment> \<open>"Ftruncate:"\<close>
  | WriteFailed                \<comment> \<open>"write failed:" after WriteAt\<close>
  | SyncFailed                 \<comment> \<open>"write failed:" after Sync\<close>
  | BufferTooSmall             \<comment> \<open>"Buffer needs at least 8B"\<close>
  | BufferNotMultiple          \<comment> \<open>"Buffer needs to be multiple of 4B"\<close>
  | VerifiedMore int int       \<comment> \<open>"Verified more non-zero than blocks we wrote %d > %d"\<close>

datatype panic =
    DivideByZero               \<comment> \<open>integer divide by zero\<close>
  | IndexOutOfRange            \<comment> \<open>index or slice bounds out of range\<close>
  | InvalidArgument            \<comment> \<open>"invalid argument to Int63n"\<close>
  | MakesliceLen               \<comment> \<open>"makeslice: len out of range"\<close>

datatype exit = Done | Fatal fatal | Panic panic

subsection \<open>Go integer arithmetic\<close>

definition wrap64 :: "int \<Rightarrow> int" where
  "wrap64 x = (x + 2 ^ 63) mod 2 ^ 64 - 2 ^ 63"

text \<open>Go's \<open>/\<close> and \<open>%\<close> truncate towards zero.\<close>

definition tdiv :: "int \<Rightarrow> int \<Rightarrow> int" where
  "tdiv a b = sgn a * sgn b * (\<bar>a\<bar> div \<bar>b\<bar>)"

definition tmod :: "int \<Rightarrow> int \<Rightarrow> int" where
  "tmod a b = a - b * tdiv a b"

subsection \<open>Library functions the program calls\<close>

text \<open>
  Modelled from the spec: \<open>hash/adler32\<close> belongs to the Go standard library and is not
  part of the repository.  The spec describes it: two accumulators,
  \<open>a = (a + byte) mod 65521\<close>, \<open>b = (b + a) mod 65521\<close>, seeded with \<open>a = 1\<close>, \<open>b = 0\<close>;
  the value is \<open>(b << 16) | a\<close>.
\<close>

fun adler_loop :: "nat \<Rightarrow> nat \<Rightarrow> byte list \<Rightarrow> nat \<times> nat" where
  "adler_loop a b [] = (a, b)"
| "adler_loop a b (x # xs) =
     (let a' = (a + unat x) mod 65521;
          b' = (b + a') mod 65521
      in adler_loop a' b' xs)"

definition Checksum :: "byte list \<Rightarrow> uint32" where
  "Checksum p = (case adler_loop 1 0 p of (a, b) \<Rightarrow> push_bit 16 (of_nat b) OR of_nat a)"

text \<open>\<open>binary.LittleEndian.PutUint32\<close> and \<open>binary.LittleEndian.Uint32\<close>.\<close>

definition PutUint32 :: "uint32 \<Rightarrow> byte list" where
  "PutUint32 v = [ucast v, ucast (drop_bit 8 v), ucast (drop_bit 16 v), ucast (drop_bit 24 v)]"

definition Uint32 :: "byte list \<Rightarrow> uint32" where
  "Uint32 b = ucast (b ! 0) OR push_bit 8 (ucast (b ! 1)) OR push_bit 16 (ucast (b ! 2))
     OR push_bit 24 (ucast (b ! 3))"

text \<open>
  \<open>math/rand\<close>: a generator is the sequence of raw values it is going to return, \<open>s k\<close>
  being the raw value of the \<open>k\<close>-th draw from now.  A bounded draw reduces the next raw
  value modulo the bound and advances the generator; \<open>Int63n\<close> panics on a bound that
  is not positive.
\<close>

type_synonym rng = "nat \<Rightarrow> nat"

definition draw :: "rng \<Rightarrow> int \<Rightarrow> int \<times> rng" where
  "draw s n = (int (s 0) mod n, \<lambda>k. s (Suc k))"

definition Int63n :: "rng \<Rightarrow> int \<Rightarrow> panic + int \<times> rng" where
  "Int63n s n = (if n \<le> 0 then Inl InvalidArgument else Inr (draw s n))"

section \<open>The checksum codec: fillBuf and verifyBuf\<close>

text \<open>The loop \<open>for i := range b { b[i] = byte(rand.Intn(255)) }\<close>, on the global generator.\<close>

fun randFill :: "byte list \<Rightarrow> nat list \<Rightarrow> rng \<Rightarrow> byte list \<times> rng" where
  "randFill b [] s = (b, s)"
| "randFill b (i # js) s =
     (case draw s 255 of (v, s') \<Rightarrow> randFill (b[i := of_int v]) js s')"

text \<open>The loop \<open>for i := range a { b[len(b)-4+i] = a[i] }\<close>.\<close>

fun copyTrailer :: "byte list \<Rightarrow> byte list \<Rightarrow> nat list \<Rightarrow> byte list" where
  "copyTrailer b a [] = b"
| "copyTrailer b a (i # js) = copyTrailer (b[length b - 4 + i := a ! i]) a js"

text \<open>"Calculate checksum and add it": the second half of \<open>fillBuf\<close>.\<close>

definition addChecksum :: "byte list \<Rightarrow> byte list" where
  "addChecksum b =
     (let csum = Checksum (take (length b - 4) b);
          a = PutUint32 csum
      in copyTrailer b a [0..<length a])"

definition fillBuf :: "rng \<Rightarrow> int \<Rightarrow> fatal + byte list \<times> rng" where
  "fillBuf s n =
     (if n < 8 then Inl BufferTooSmall
      else if tmod n 4 \<noteq> 0 then Inl BufferNotMultiple
      else
        (case randFill (replicate (nat n) 0) [0..<nat n] s of
           (b, s') \<Rightarrow> Inr (addChecksum b, s')))"

text \<open>\<open>verifyBuf\<close>; the slice \<open>b[:len(b)-4]\<close> panics on a buffer shorter than 4 bytes.\<close>

definition verifyBuf :: "byte list \<Rightarrow> panic + bool" where
  "verifyBuf b =
     (if length b < 4 then Inl IndexOutOfRange
      else
        (let csum1 = Checksum (take (length b - 4) b);
             csum2 = Uint32 (drop (length b - 4) b)
         in Inr (csum1 = csum2)))"

section \<open>The run: configuration, environment and state\<close>

text \<open>The parsed command-line flags.\<close>

record config =
  blockSz :: int
  numBlocks :: int
  syncBlocks :: int
  mode :: string
  minBlocks :: int
  maxBlocks :: int
  fileName :: string
  fileSz :: int
  seed :: int
  verbose :: bool

text \<open>
  What the program does not decide itself: the generator \<open>rand.NewSource\<close> returns for a
  seed, the state of the package-level generator of \<open>math/rand\<close> when the program
  starts, and which calls of the operating system fail (writes and syncs by the loop
  index, reads by the offset).
\<close>

record env =
  NewSource :: "int \<Rightarrow> rng"
  globalRand :: rng
  createFails :: bool
  ftruncateFails :: bool
  writeFails :: "int \<Rightarrow> bool"
  syncFails :: "int \<Rightarrow> bool"
  readFails :: "int \<Rightarrow> bool"

text \<open>What the program does to the outside, in order: system calls and output lines.\<close>

datatype event =
    Println string
  | Create string                \<comment> \<open>\<open>os.Create(name)\<close>\<close>
  | EvFtruncate int              \<comment> \<open>\<open>syscall.Ftruncate(fd, size)\<close>\<close>
  | EvWriteAt "byte list" int    \<comment> \<open>\<open>f.WriteAt(b, off)\<close>\<close>
  | EvSync                       \<comment> \<open>\<open>f.Sync()\<close>\<close>
  | EvReadAt int nat             \<comment> \<open>\<open>f.ReadAt(b, off)\<close>, with \<open>len(b)\<close>\<close>
  | VerboseW int nat             \<comment> \<open>"w: %08x %08x"\<close>
  | VerboseR int nat             \<comment> \<open>"r: %08x %08x"\<close>
  | VerboseV int nat             \<comment> \<open>"v: %08x %08x"\<close>
  | ReadFailed int               \<comment> \<open>"read at offset %d failed with %v"\<close>
  | DidNotVerify int             \<comment> \<open>"XXX: Block %d did not verify"\<close>
  | DumpLine nat "byte list" string  \<comment> \<open>a line of \<open>printBuf\<close>: "%06x: %s %s"\<close>
  | Verified int                 \<comment> \<open>"Verified %d blocks"\<close>

text \<open>
  The state of a run: the generator \<open>r\<close> seeded from the flag, the package-level
  generator, the variables \<open>off\<close> and \<open>streamBlocks\<close> of \<open>main\<close>, the content and the
  size of the file, and the events so far.  A byte of the file that was never written
  reads as zero.
\<close>

record state =
  rnd :: rng
  grnd :: rng
  off :: int
  streamBlocks :: int
  fdata :: "int \<Rightarrow> byte"
  fsize :: int
  trace :: "event list"

definition init :: "env \<Rightarrow> config \<Rightarrow> state" where
  "init e cfg =
     \<lparr>rnd = NewSource e (seed cfg), grnd = globalRand e, off = 0, streamBlocks = 0,
      fdata = (\<lambda>p. 0), fsize = 0, trace = []\<rparr>"

definition emit :: "event \<Rightarrow> state \<Rightarrow> state" where
  "emit ev st = st\<lparr>trace := trace st @ [ev]\<rparr>"

definition Ftruncate :: "int \<Rightarrow> state \<Rightarrow> state" where
  "Ftruncate sz st =
     st\<lparr>fdata := (\<lambda>p. if p < sz then fdata st p else 0), fsize := sz,
        trace := trace st @ [EvFtruncate sz]\<rparr>"

definition WriteAt :: "byte list \<Rightarrow> int \<Rightarrow> state \<Rightarrow> state" where
  "WriteAt b pos st =
     st\<lparr>fdata := (\<lambda>p. if pos \<le> p \<and> p < pos + int (length b) then b ! nat (p - pos)
                       else fdata st p),
        fsize := max (fsize st) (pos + int (length b)),
        trace := trace st @ [EvWriteAt b pos]\<rparr>"

definition readBytes :: "state \<Rightarrow> int \<Rightarrow> nat \<Rightarrow> byte list" where
  "readBytes st pos n = map (\<lambda>k. fdata st (pos + int k)) [0..<n]"

section \<open>The write loop\<close>

text \<open>
  The inner loop of the stream mode: draw a block index from \<open>r\<close> until the stream fits.
  The loop has no bound; \<open>None\<close> is the loop that never ends.
\<close>

partial_function (option) pickStart :: "rng \<Rightarrow> int \<Rightarrow> int \<Rightarrow> (panic + int \<times> rng) option" where
  "pickStart s sb totalBlocks =
     (case Int63n s totalBlocks of
        Inl p \<Rightarrow> Some (Inl p)
      | Inr (offBlock, s') \<Rightarrow>
          if wrap64 (offBlock + sb) \<le> totalBlocks then Some (Inr (offBlock, s'))
          else pickStart s' sb totalBlocks)"

text \<open>
  The \<open>switch *mode\<close> of iteration \<open>i\<close>: it sets \<open>off\<close> (and \<open>streamBlocks\<close>).  The run
  length of a new stream is drawn from the package-level generator, the offsets from \<open>r\<close>.
  A mode that is none of the three leaves \<open>off\<close> as it is.
\<close>

definition place :: "config \<Rightarrow> int \<Rightarrow> int \<Rightarrow> state \<Rightarrow> (panic + state) option" where
  "place cfg totalBlocks i st =
     (if mode cfg = ''rand'' then
        (case Int63n (rnd st) totalBlocks of
           Inl p \<Rightarrow> Some (Inl p)
         | Inr (k, r') \<Rightarrow> Some (Inr (st\<lparr>rnd := r', off := wrap64 (k * blockSz cfg)\<rparr>)))
      else if mode cfg = ''seq'' then
        Some (Inr (st\<lparr>off := wrap64 (i * blockSz cfg)\<rparr>))
      else if mode cfg = ''stream'' then
        (if streamBlocks st = 0 then
           (case Int63n (grnd st) (wrap64 (wrap64 (maxBlocks cfg - minBlocks cfg) + 1)) of
              Inl p \<Rightarrow> Some (Inl p)
            | Inr (k, g') \<Rightarrow>
                (let sb = wrap64 (minBlocks cfg + k) in
                 case pickStart (rnd st) sb totalBlocks of
                   None \<Rightarrow> None
                 | Some (Inl p) \<Rightarrow> Some (Inl p)
                 | Some (Inr (offBlock, r')) \<Rightarrow>
                     Some (Inr (st\<lparr>rnd := r', grnd := g',
                                    off := wrap64 (offBlock * blockSz cfg),
                                    streamBlocks := wrap64 (sb - 1)\<rparr>))))
         else
           Some (Inr (st\<lparr>off := wrap64 (off st + blockSz cfg),
                          streamBlocks := wrap64 (streamBlocks st - 1)\<rparr>)))
      else Some (Inr st))"

text \<open>
  The body of the write loop: generate a block, choose the offset, write, sync.
  \<open>WriteAt\<close> fails on a negative offset.
\<close>

definition writeBlock :: "env \<Rightarrow> config \<Rightarrow> int \<Rightarrow> int \<Rightarrow> state \<Rightarrow> (exit \<times> state + state) option" where
  "writeBlock e cfg totalBlocks i st =
     (case fillBuf (grnd st) (blockSz cfg) of
        Inl f \<Rightarrow> Some (Inl (Fatal f, st))
      | Inr (b, g') \<Rightarrow>
          (case place cfg totalBlocks i (st\<lparr>grnd := g'\<rparr>) of
             None \<Rightarrow> None
           | Some (Inl p) \<Rightarrow> Some (Inl (Panic p, st\<lparr>grnd := g'\<rparr>))
           | Some (Inr st1) \<Rightarrow>
               (let st2 = (if verbose cfg then emit (VerboseW (off st1) (length b)) st1 else st1)
                in if off st2 < 0 \<or> writeFails e i then Some (Inl (Fatal WriteFailed, st2))
                   else
                     (let st3 = WriteAt b (off st2) st2
                      in if syncBlocks cfg \<noteq> 0 \<and> tmod i (syncBlocks cfg) = 0 then
                           (if syncFails e i then Some (Inl (Fatal SyncFailed, st3))
                            else Some (Inr (emit EvSync st3)))
                         else Some (Inr st3)))))"

function writeLoop :: "env \<Rightarrow> config \<Rightarrow> int \<Rightarrow> int \<Rightarrow> state \<Rightarrow> (exit \<times> state + state) option" where
  "writeLoop e cfg totalBlocks i st =
     (if i < numBlocks cfg then
        (case writeBlock e cfg totalBlocks i st of
           None \<Rightarrow> None
         | Some (Inl x) \<Rightarrow> Some (Inl x)
         | Some (Inr st') \<Rightarrow> writeLoop e cfg totalBlocks (i + 1) st')
      else Some (Inr st))"
  by pat_completeness auto
termination
  by (relation "measure (\<lambda>(e, cfg, totalBlocks, i, st). nat (numBlocks cfg - i))") auto

declare pickStart.simps [code]

section \<open>The verification scan\<close>

text \<open>
  \<open>printBuf\<close>: sixteen bytes to a line.  The inner loop reads \<open>b[i+j]\<close> for every \<open>j\<close> below
  16 and panics when \<open>i + j\<close> is past the end of the buffer.
\<close>

fun dumpRow :: "byte list \<Rightarrow> nat \<Rightarrow> nat list \<Rightarrow> byte list \<times> string \<Rightarrow> panic + byte list \<times> string" where
  "dumpRow b i [] acc = Inr acc"
| "dumpRow b i (j # js) (hex, str) =
     (if i + j < length b then
        dumpRow b i js
          (hex @ [b ! (i + j)],
           str @ [if b ! (i + j) < 32 \<or> 127 \<le> b ! (i + j) then CHR '' ''
                  else char_of (unat (b ! (i + j)))])
      else Inl IndexOutOfRange)"

function printBufFrom :: "byte list \<Rightarrow> nat \<Rightarrow> state \<Rightarrow> panic option \<times> state" where
  "printBufFrom b i st =
     (if i < length b then
        (case dumpRow b i [0..<16] ([], []) of
           Inl p \<Rightarrow> (Some p, st)
         | Inr (hex, str) \<Rightarrow> printBufFrom b (i + 16) (emit (DumpLine i hex str) st))
      else (None, st))"
  by pat_completeness auto
termination
  by (relation "measure (\<lambda>(b, i, st). length b - i)") auto

definition printBuf :: "byte list \<Rightarrow> state \<Rightarrow> panic option \<times> state" where
  "printBuf b st = printBufFrom b 0 st"

text \<open>
  The body of the verification loop for block \<open>i\<close>, with the counter.  A read fails when
  the operating system says so or when the file ends before the buffer is full.
\<close>

definition verifyBlock :: "env \<Rightarrow> config \<Rightarrow> int \<Rightarrow> int \<Rightarrow> state \<Rightarrow> panic option \<times> int \<times> state" where
  "verifyBlock e cfg i count st =
     (let pos = wrap64 (i * blockSz cfg);
          n = nat (blockSz cfg);
          st1 = (if verbose cfg then emit (VerboseR pos n) st else st);
          st2 = emit (EvReadAt pos n) st1
      in if readFails e pos \<or> pos < 0 \<or> fsize st2 < pos + int n then
           (None, count, emit (ReadFailed pos) st2)
         else
           (let b = readBytes st2 pos n
            in if b = replicate n 0 then (None, count, st2)
               else
                 (let st3 = (if verbose cfg then emit (VerboseV pos n) st2 else st2)
                  in case verifyBuf b of
                       Inl p \<Rightarrow> (Some p, count + 1, st3)
                     | Inr True \<Rightarrow> (None, count + 1, st3)
                     | Inr False \<Rightarrow>
                         (case printBuf b (emit (DidNotVerify i) st3) of
                            (r, st4) \<Rightarrow> (r, count + 1, st4)))))"

function verifyLoop :: "env \<Rightarrow> config \<Rightarrow> int \<Rightarrow> int \<Rightarrow> int \<Rightarrow> state \<Rightarrow> panic option \<times> int \<times> state" where
  "verifyLoop e cfg totalBlocks i count st =
     (if i < totalBlocks then
        (case verifyBlock e cfg i count st of
           (Some p, count', st') \<Rightarrow> (Some p, count', st')
         | (None, count', st') \<Rightarrow> verifyLoop e cfg totalBlocks (i + 1) count' st')
      else (None, count, st))"
  by pat_completeness auto
termination
  by (relation "measure (\<lambda>(e, cfg, totalBlocks, i, count, st). nat (totalBlocks - i))") auto

text \<open>
  From "Verify the file" to the end of \<open>main\<close>.  \<open>make([]byte, blockSz)\<close> panics on a
  negative size.
\<close>

definition verifyPhase :: "env \<Rightarrow> config \<Rightarrow> int \<Rightarrow> state \<Rightarrow> exit \<times> state" where
  "verifyPhase e cfg totalBlocks st =
     (let st1 = emit (Println ''Verify the file'') st
      in if blockSz cfg < 0 then (Panic MakesliceLen, st1)
         else
           (case verifyLoop e cfg totalBlocks 0 0 st1 of
              (Some p, count, st2) \<Rightarrow> (Panic p, st2)
            | (None, count, st2) \<Rightarrow>
                (let st3 = emit (Verified count) st2
                 in if count > numBlocks cfg then
                      (Fatal (VerifiedMore count (numBlocks cfg)), st3)
                    else (Done, st3))))"

section \<open>main\<close>

text \<open>
  The whole run.  \<open>None\<close> is a run that never ends.  The generator \<open>r\<close> is in the state
  from the start: it is used only after the checks that precede its creation.
\<close>

definition main :: "env \<Rightarrow> config \<Rightarrow> (exit \<times> state) option" where
  "main e cfg =
     (let st0 = init e cfg
      in if blockSz cfg = 0 then Some (Panic DivideByZero, st0)
         else
           (let totalBlocks = wrap64 (tdiv (fileSz cfg) (blockSz cfg))
            in if fileSz cfg \<le> blockSz cfg then Some (Fatal BlocksizeNotSmaller, st0)
               else if maxBlocks cfg \<le> minBlocks cfg then Some (Fatal StreamMinNotLess, st0)
               else if mode cfg = ''seq'' \<and> totalBlocks < numBlocks cfg then
                 Some (Fatal FilesizeTooSmall, st0)
               else
                 (let st1 = emit (Println (''Create file: '' @ fileName cfg)) st0
                  in if createFails e then Some (Fatal OpenFile, st1)
                     else
                       (let st2 = emit (Println ''Ftruncate file'') (emit (Create (fileName cfg)) st1)
                        in if ftruncateFails e \<or> fileSz cfg < 0 then
                             Some (Fatal FtruncateFailed, st2)
                           else
                             (let st3 = emit (Println ''Write data'') (Ftruncate (fileSz cfg) st2)
                              in case writeLoop e cfg totalBlocks 0 st3 of
                                   None \<Rightarrow> None
                                 | Some (Inl x) \<Rightarrow> Some x
                                 | Some (Inr st4) \<Rightarrow>
                                     Some (verifyPhase e cfg totalBlocks st4))))))"

section \<open>Observations and invariants used in the proofs\<close>

text \<open>The offsets of the writes and of the reads of a trace, and the counts it reports.\<close>

fun writeOffsets :: "event list \<Rightarrow> int list" where
  "writeOffsets [] = []"
| "writeOffsets (EvWriteAt b pos # es) = pos # writeOffsets es"
| "writeOffsets (ev # es) = writeOffsets es"

fun readOffsets :: "event list \<Rightarrow> int list" where
  "readOffsets [] = []"
| "readOffsets (EvReadAt pos n # es) = pos # readOffsets es"
| "readOffsets (ev # es) = readOffsets es"

fun verifiedCounts :: "event list \<Rightarrow> int list" where
  "verifiedCounts [] = []"
| "verifiedCounts (Verified c # es) = c # verifiedCounts es"
| "verifiedCounts (ev # es) = verifiedCounts es"

text \<open>The state when the write loop starts: the file exists and has its size.\<close>

definition beforeWrites :: "env \<Rightarrow> config \<Rightarrow> state" where
  "beforeWrites e cfg =
     emit (Println ''Write data'')
       (Ftruncate (fileSz cfg)
          (emit (Println ''Ftruncate file'')
             (emit (Create (fileName cfg))
                (emit (Println (''Create file: '' @ fileName cfg)) (init e cfg)))))"

text \<open>
  Parts of the body of the verification loop: the state after the read of block \<open>i\<close>, the
  state after the block was counted, whether the read fails, and the bytes it returns.
\<close>

definition readState :: "config \<Rightarrow> int \<Rightarrow> state \<Rightarrow> state" where
  "readState cfg i st =
     emit (EvReadAt (wrap64 (i * blockSz cfg)) (nat (blockSz cfg)))
       (if verbose cfg then emit (VerboseR (wrap64 (i * blockSz cfg)) (nat (blockSz cfg))) st else st)"

definition countedState :: "config \<Rightarrow> int \<Rightarrow> state \<Rightarrow> state" where
  "countedState cfg i st =
     (if verbose cfg then emit (VerboseV (wrap64 (i * blockSz cfg)) (nat (blockSz cfg))) (readState cfg i st)
      else readState cfg i st)"

definition readFailed :: "env \<Rightarrow> config \<Rightarrow> int \<Rightarrow> state \<Rightarrow> bool" where
  "readFailed e cfg i st \<longleftrightarrow>
     readFails e (wrap64 (i * blockSz cfg)) \<or> wrap64 (i * blockSz cfg) < 0
       \<or> fsize st < wrap64 (i * blockSz cfg) + int (nat (blockSz cfg))"

definition blockAt :: "config \<Rightarrow> state \<Rightarrow> int \<Rightarrow> byte list" where
  "blockAt cfg st i = readBytes st (wrap64 (i * blockSz cfg)) (nat (blockSz cfg))"

text \<open>The blocks from \<open>i\<close> up to \<open>tot\<close> that do not read as zero.\<close>

definition nonzeroBlocks :: "config \<Rightarrow> state \<Rightarrow> int \<Rightarrow> int \<Rightarrow> int set" where
  "nonzeroBlocks cfg st i tot =
     {j. i \<le> j \<and> j < tot \<and> blockAt cfg st j \<noteq> replicate (nat (blockSz cfg)) 0}"

text \<open>
  The invariant of the write loop: every non-zero byte of the file lies in the block of
  a write, and every write is at a multiple of the block size.
\<close>

definition covered :: "int \<Rightarrow> state \<Rightarrow> bool" where
  "covered B st \<longleftrightarrow>
     (\<forall>p. fdata st p \<noteq> 0 \<longrightarrow> (\<exists>w \<in> set (writeOffsets (trace st)). w \<le> p \<and> p < w + B)) \<and>
     (\<forall>w \<in> set (writeOffsets (trace st)). 0 \<le> w \<and> B dvd w)"

definition loopHead :: "int \<Rightarrow> state \<Rightarrow> bool" where
  "loopHead B st \<longleftrightarrow> covered B st \<and> 0 \<le> off st \<and> off st < 2 ^ 63 \<and> B dvd off st"

text \<open>The bytes \<open>fillBuf\<close> draws for a buffer of \<open>n\<close> bytes.\<close>

definition drawn :: "rng \<Rightarrow> nat \<Rightarrow> byte list" where
  "drawn s n = map (\<lambda>k. of_int (int (s k) mod 255)) [0..<n]"

definition intact :: "byte list \<Rightarrow> bool" where
  "intact b \<longleftrightarrow> b \<noteq> replicate (length b) 0 \<and> verifyBuf b = Inr True"

definition afterWrite :: "config \<Rightarrow> int \<Rightarrow> byte list \<Rightarrow> state \<Rightarrow> state" where
  "afterWrite cfg i b st =
     (let st2 = (if verbose cfg then emit (VerboseW (off st) (length b)) st else st);
          st3 = WriteAt b (off st2) st2
      in if syncBlocks cfg \<noteq> 0 \<and> tmod i (syncBlocks cfg) = 0 then emit EvSync st3 else st3)"

fun scanEvent :: "event \<Rightarrow> bool" where
  "scanEvent (VerboseR pos n) = True"
| "scanEvent (EvReadAt pos n) = True"
| "scanEvent (ReadFailed pos) = True"
| "scanEvent (VerboseV pos n) = True"
| "scanEvent (DidNotVerify i) = True"
| "scanEvent (DumpLine i hex str) = True"
| "scanEvent ev = False"

definition quiet :: "env \<Rightarrow> bool" where
  "quiet e \<longleftrightarrow> \<not> createFails e \<and> \<not> ftruncateFails e \<and> (\<forall>i. \<not> writeFails e i)
     \<and> (\<forall>i. \<not> syncFails e i) \<and> (\<forall>p. \<not> readFails e p)"

text \<open>
  Example inputs: an environment in which no system call fails, with generator \<open>r\<close> for
  every seed and package-level generator \<open>g\<close>; two generators; the flags of a stream-mode
  run of five blocks.  And what is observed of a run: its events, the offsets it read, a
  block of the file it leaves.
\<close>

definition quietEnv :: "rng \<Rightarrow> rng \<Rightarrow> env" where
  "quietEnv r g =
     \<lparr>NewSource = (\<lambda>sd. r), globalRand = g, createFails = False, ftruncateFails = False,
      writeFails = (\<lambda>i. False), syncFails = (\<lambda>i. False), readFails = (\<lambda>p. False)\<rparr>"

definition constTape :: "nat \<Rightarrow> rng" where
  "constTape v = (\<lambda>k. v)"

definition downTape :: "nat \<Rightarrow> rng" where
  "downTape v = (\<lambda>k. v - k)"

definition streamCfg :: "int \<Rightarrow> int \<Rightarrow> int \<Rightarrow> int \<Rightarrow> config" where
  "streamCfg bs fs mn mx =
     \<lparr>blockSz = bs, numBlocks = 5, syncBlocks = 0, mode = ''stream'', minBlocks = mn,
      maxBlocks = mx, fileName = ''disk.img'', fileSz = fs, seed = 42, verbose = False\<rparr>"

definition outcome :: "(exit \<times> state) option \<Rightarrow> (exit \<times> event list) option" where
  "outcome r = map_option (\<lambda>(x, st). (x, trace st)) r"

definition readReport :: "(exit \<times> state) option \<Rightarrow> (exit \<times> int list) option" where
  "readReport r = map_option (\<lambda>(x, st). (x, readOffsets (trace st))) r"

definition blockReport :: "config \<Rightarrow> int \<Rightarrow> (exit \<times> state) option \<Rightarrow> (exit \<times> byte list) option" where
  "blockReport cfg j r = map_option (\<lambda>(x, st). (x, blockAt cfg st j)) r"

declare writeLoop.simps [simp del] verifyLoop.simps [simp del] printBufFrom.simps [simp del]

section \<open>Properties of the codec\<close>

lemma Uint32_PutUint32: "Uint32 (PutUint32 v) = v"
  unfolding Uint32_def PutUint32_def
  apply simp
  apply (rule bit_word_eqI)
  subgoal for n
    apply (cases "n < 8"; cases "n < 16"; cases "n < 24")
           apply (auto simp: bit_simps)
    done
  done

lemma tmod_nonneg: "0 \<le> a \<Longrightarrow> 0 < b \<Longrightarrow> tmod a b = a mod b"
  by (simp add: tmod_def tdiv_def sgn_if minus_mult_div_eq_mod)

lemma tdiv_nonneg: "0 \<le> a \<Longrightarrow> 0 < b \<Longrightarrow> tdiv a b = a div b"
  by (simp add: tdiv_def sgn_if)

lemma copyTrailer_4:
  assumes "4 \<le> length b" "length a = 4"
  shows "copyTrailer b a [0..<4] = take (length b - 4) b @ a"
proof -
  have u: "[0..<4] = [0, Suc 0, 2, 3]" by (simp add: upt_rec)
  obtain a0 a1 a2 a3 where a: "a = [a0, a1, a2, a3]"
    using assms(2) by (auto simp: length_Suc_conv numeral_eq_Suc)
  show ?thesis
  proof (rule nth_equalityI)
    show "length (copyTrailer b a [0..<4]) = length (take (length b - 4) b @ a)"
      using assms by (simp add: u a)
  next
    fix i assume "i < length (copyTrailer b a [0..<4])"
    then show "copyTrailer b a [0..<4] ! i = (take (length b - 4) b @ a) ! i"
      using assms by (auto simp: u a nth_append nth_list_update)
  qed
qed

lemma length_PutUint32: "length (PutUint32 v) = 4"
  by (simp add: PutUint32_def)

lemma addChecksum_eq:
  "4 \<le> length b \<Longrightarrow>
   addChecksum b = take (length b - 4) b @ PutUint32 (Checksum (take (length b - 4) b))"
  by (simp add: addChecksum_def Let_def length_PutUint32 copyTrailer_4)

lemma length_addChecksum: "4 \<le> length b \<Longrightarrow> length (addChecksum b) = length b"
  by (simp add: addChecksum_eq length_PutUint32)

lemma verifyBuf_append:
  "length t = 4 \<Longrightarrow> verifyBuf (p @ t) = Inr (Checksum p = Uint32 t)"
  by (simp add: verifyBuf_def Let_def)

lemma verifyBuf_addChecksum: "4 \<le> length b \<Longrightarrow> verifyBuf (addChecksum b) = Inr True"
  by (simp add: addChecksum_eq verifyBuf_append length_PutUint32 Uint32_PutUint32)

lemma randFill_length: "randFill b js s = (b', s') \<Longrightarrow> length b' = length b"
  by (induction b js s arbitrary: b' s' rule: randFill.induct) (auto split: prod.splits)

lemma fillBuf_Inr:
  assumes "fillBuf s n = Inr (b, s')"
  shows "8 \<le> n \<and> n mod 4 = 0 \<and>
         (\<exists>b0. length b0 = nat n \<and> b = addChecksum b0 \<and> randFill (replicate (nat n) 0) [0..<nat n] s = (b0, s'))"
proof -
  from assms have n: "8 \<le> n" "tmod n 4 = 0"
    by (auto simp: fillBuf_def split: if_splits)
  obtain b0 s0 where r: "randFill (replicate (nat n) 0) [0..<nat n] s = (b0, s0)"
    by (cases "randFill (replicate (nat n) 0) [0..<nat n] s")
  from randFill_length [OF r] have "length b0 = nat n" by simp
  moreover from assms n r have "b = addChecksum b0" "s' = s0"
    by (auto simp: fillBuf_def)
  moreover from n have "n mod 4 = 0" by (simp add: tmod_nonneg)
  ultimately show ?thesis using n r by auto
qed

lemma fillBuf_ok:
  assumes "8 \<le> n" "n mod 4 = 0"
  shows "\<exists>b0 s'. fillBuf s n = Inr (addChecksum b0, s') \<and> length b0 = nat n"
proof -
  obtain b0 s0 where r: "randFill (replicate (nat n) 0) [0..<nat n] s = (b0, s0)"
    by (cases "randFill (replicate (nat n) 0) [0..<nat n] s")
  from randFill_length [OF r] have "length b0 = nat n" by simp
  moreover have "fillBuf s n = Inr (addChecksum b0, s0)"
    using assms r by (simp add: fillBuf_def tmod_nonneg)
  ultimately show ?thesis by blast
qed

lemma adler_loop_fst:
  "a < 65521 \<Longrightarrow> fst (adler_loop a b xs) = (a + sum_list (map unat xs)) mod 65521"
proof (induction xs arbitrary: a b)
  case Nil
  then show ?case by simp
next
  case (Cons x xs)
  have "fst (adler_loop a b (x # xs)) = ((a + unat x) mod 65521 + sum_list (map unat xs)) mod 65521"
    using Cons.IH [of "(a + unat x) mod 65521"] by (simp add: Let_def)
  also have "\<dots> = (a + sum_list (map unat (x # xs))) mod 65521"
    by (simp add: mod_add_left_eq add.assoc)
  finally show ?case .
qed

lemma Checksum_low:
  "unat (take_bit 16 (Checksum p)) = (1 + sum_list (map unat p)) mod 65521"
proof -
  obtain a b where ab: "adler_loop 1 0 p = (a, b)" by (cases "adler_loop 1 0 p")
  have a: "a = (1 + sum_list (map unat p)) mod 65521"
    using adler_loop_fst [of 1 0 p] ab by simp
  have "a < 65521" using a by simp
  then have a16: "a < 2 ^ 16" by simp
  have ab': "adler_loop (Suc 0) 0 p = (a, b)" using ab by simp
  have "take_bit 16 (Checksum p) = (of_nat a :: uint32)"
    using a16 by (simp add: Checksum_def ab' take_bit_push_bit take_bit_of_nat take_bit_nat_eq_self)
  moreover have "unat (of_nat a :: uint32) = a"
    using a16 by (simp add: unat_of_nat)
  ultimately show ?thesis using a by simp
qed

lemma uint_flip_bit:
  fixes x :: byte
  assumes "k < 8"
  shows "uint (flip_bit k x) = (if bit x k then uint x - 2 ^ k else uint x + 2 ^ k)"
proof -
  have p: "(2::int) ^ k < 2 ^ 8" using assms by (intro power_strict_increasing) simp_all
  have "uint (push_bit k 1 :: byte) = take_bit 8 (push_bit k (uint (1 :: byte)))"
    by (subst unsigned_push_bit_eq) simp
  also have "\<dots> = push_bit k 1"
    using assms by (simp add: push_bit_eq_mult)
  finally have "uint (push_bit k 1 :: byte) = push_bit k 1" .
  then have "uint (flip_bit k x) = flip_bit k (uint x)"
    by (simp add: flip_bit_def uint_xor flip_bit_int_def)
  also have "\<dots> = (if bit (uint x) k then uint x - 2 ^ k else uint x + 2 ^ k)"
    by (simp add: flip_bit_eq_if set_bit_eq unset_bit_eq)
  also have "bit (uint x) k = bit x k" by (simp add: bit_uint_iff assms)
  finally show ?thesis .
qed

lemma sum_list_map_update:
  fixes f :: "'a \<Rightarrow> nat"
  shows "i < length xs \<Longrightarrow> sum_list (map f (xs[i := y])) + f (xs ! i) = sum_list (map f xs) + f y"
proof (induction xs arbitrary: i)
  case Nil
  then show ?case by simp
next
  case (Cons x xs)
  then show ?case by (cases i) (auto simp: algebra_simps)
qed

lemma mod_shift_neq:
  fixes A d :: nat
  assumes "0 < d" "d < m"
  shows "(A + d) mod m \<noteq> A mod m"
proof
  assume "(A + d) mod m = A mod m"
  then have "m dvd (A + d) - A"
    by (simp add: mod_eq_dvd_iff_nat)
  then have "m dvd d" by simp
  then show False using assms by (auto dest: dvd_imp_le)
qed

lemma unat_flip_bit:
  fixes x :: byte
  assumes "k < 8"
  shows "unat (flip_bit k x) + (if bit x k then 2 ^ k else 0) = unat x + (if bit x k then 0 else 2 ^ k)"
proof -
  have "int (unat (flip_bit k x)) = uint (flip_bit k x)"
    by simp
  also have "\<dots> = (if bit x k then uint x - 2 ^ k else uint x + 2 ^ k)"
    by (rule uint_flip_bit [OF assms])
  also have "\<dots> = (if bit x k then int (unat x) - 2 ^ k else int (unat x) + 2 ^ k)"
    by simp
  finally have "int (unat (flip_bit k x)) = (if bit x k then int (unat x) - 2 ^ k else int (unat x) + 2 ^ k)" .
  then have "int (unat (flip_bit k x) + (if bit x k then 2 ^ k else 0))
           = int (unat x + (if bit x k then 0 else 2 ^ k))"
    by (simp split: if_splits)
  then show ?thesis by (simp only: of_nat_eq_iff)
qed

lemma Checksum_flip:
  assumes "i < length p" and "k < 8"
  shows "Checksum (p[i := flip_bit k (p ! i)]) \<noteq> Checksum p"
proof
  define x where "x = p ! i"
  define p' where "p' = p[i := flip_bit k x]"
  define S where "S = sum_list (map unat p)"
  define S' where "S' = sum_list (map unat p')"
  define d :: nat where "d = 2 ^ k"
  assume "Checksum (p[i := flip_bit k (p ! i)]) = Checksum p"
  then have eq: "Checksum p' = Checksum p" by (simp add: p'_def x_def)
  have low: "(1 + S') mod 65521 = (1 + S) mod 65521"
    unfolding S_def S'_def using eq Checksum_low [of p'] Checksum_low [of p] by simp
  have upd: "S' + unat x = S + unat (flip_bit k x)"
    unfolding S_def S'_def p'_def x_def using assms(1) by (rule sum_list_map_update)
  have "(2::nat) ^ k < 2 ^ 8" using assms(2) by (intro power_strict_increasing) simp_all
  then have d: "0 < d" "d < 65521" by (simp_all add: d_def)
  have fl: "unat (flip_bit k x) + (if bit x k then d else 0) = unat x + (if bit x k then 0 else d)"
    unfolding d_def by (rule unat_flip_bit [OF assms(2)])
  show False
  proof (cases "bit x k")
    case True
    with fl upd have "S = S' + d" by simp
    with low have "(1 + S' + d) mod 65521 = (1 + S') mod 65521" by (simp add: add.assoc)
    then show False using mod_shift_neq [OF d, of "1 + S'"] by simp
  next
    case False
    with fl upd have "S' = S + d" by simp
    with low have "(1 + S + d) mod 65521 = (1 + S) mod 65521" by (simp add: add.assoc)
    then show False using mod_shift_neq [OF d, of "1 + S"] by simp
  qed
qed

lemma Checksum_zeros_low: "ucast (Checksum (replicate m 0)) = (1 :: byte)"
proof -
  have "unat (take_bit 16 (Checksum (replicate m 0))) = 1"
    by (simp add: Checksum_low sum_list_replicate)
  then have tb: "take_bit 16 (Checksum (replicate m 0)) = 1"
    by (metis unat_1 word_unat_eq_iff)
  show ?thesis
  proof (rule bit_word_eqI)
    fix n assume n: "n < LENGTH(8)"
    have "bit (Checksum (replicate m 0)) n = bit (take_bit 16 (Checksum (replicate m 0))) n"
      using n by (simp add: bit_take_bit_iff)
    then show "bit (ucast (Checksum (replicate m 0)) :: byte) n = bit (1 :: byte) n"
      using n by (simp add: bit_ucast_iff tb bit_1_iff)
  qed
qed

lemma PutUint32_nth0: "PutUint32 v ! 0 = ucast v"
  by (simp add: PutUint32_def)

lemma addChecksum_not_zero:
  assumes "4 \<le> length b"
  shows "addChecksum b \<noteq> replicate (length b) 0"
proof
  define p where "p = take (length b - 4) b"
  define t where "t = PutUint32 (Checksum p)"
  assume "addChecksum b = replicate (length b) 0"
  then have z: "p @ t = replicate (length b) 0"
    unfolding addChecksum_eq [OF assms] p_def t_def .
  have "replicate (length b) (0::byte) = replicate (length b - 4) 0 @ replicate 4 0"
    using assms by (simp flip: replicate_add)
  with z have "p @ t = replicate (length b - 4) 0 @ replicate 4 0"
    by simp
  moreover have "length p = length (replicate (length b - 4) (0::byte))"
    using assms by (simp add: p_def)
  ultimately have "p = replicate (length b - 4) 0 \<and> t = replicate 4 0"
    by (metis append_eq_append_conv)
  then have p: "p = replicate (length b - 4) 0" and "t ! 0 = 0"
    by simp_all
  then have "ucast (Checksum p) = (0 :: byte)" by (simp add: t_def PutUint32_nth0)
  then show False using Checksum_zeros_low [of "length b - 4"] p by simp
qed

section \<open>Arithmetic of offsets\<close>

lemma wrap64_id: "- (2 ^ 63) \<le> x \<Longrightarrow> x < 2 ^ 63 \<Longrightarrow> wrap64 x = x"
  by (simp add: wrap64_def)

lemma wrap64_range: "- (2 ^ 63) \<le> wrap64 x \<and> wrap64 x < 2 ^ 63"
proof -
  have "0 \<le> (x + 2 ^ 63) mod 2 ^ 64" "(x + 2 ^ 63) mod 2 ^ 64 < (2 ^ 64 :: int)"
    by simp_all
  then show ?thesis by (simp add: wrap64_def)
qed

lemma wrap64_add_pos:
  assumes "0 \<le> a" "a < 2 ^ 63" "0 \<le> b" "b < 2 ^ 63"
  shows "wrap64 (a + b) = a + b \<or> wrap64 (a + b) < 0"
proof (cases "a + b < 2 ^ 63")
  case True
  then show ?thesis using assms by (simp add: wrap64_id)
next
  case False
  define y where "y = a + b + 2 ^ 63 - 2 ^ 64"
  have y: "0 \<le> y" "y < 2 ^ 64" "y < 2 ^ 63"
    using False assms by (simp_all add: y_def)
  have "a + b + 2 ^ 63 = y + 2 ^ 64"
    by (simp add: y_def)
  then have "(a + b + 2 ^ 63) mod 2 ^ 64 = (y + 2 ^ 64) mod 2 ^ 64"
    by (simp only:)
  also have "\<dots> = y"
    using y by (simp add: mod_pos_pos_trivial)
  finally have "wrap64 (a + b) = y - 2 ^ 63"
    by (simp add: wrap64_def)
  then show ?thesis using y by simp
qed

lemma totalBlocks_eq:
  assumes "0 < B" "B < F" "F < 2 ^ 63"
  shows "wrap64 (tdiv F B) = F div B"
proof -
  have "tdiv F B = F div B" using assms by (simp add: tdiv_nonneg)
  moreover have "0 \<le> F div B" using assms by (simp add: pos_imp_zdiv_nonneg_iff)
  moreover have "F div B \<le> F div 1" using assms by (intro zdiv_mono2) simp_all
  ultimately show ?thesis using assms by (simp add: wrap64_id)
qed

lemma block_in_file:
  fixes B k F :: int
  assumes "0 < B" "0 \<le> k" "k < F div B"
  shows "0 \<le> k * B" "k * B + B \<le> F"
proof -
  show "0 \<le> k * B" using assms by (simp add: zero_le_mult_iff)
  have "k + 1 \<le> F div B" using assms by simp
  then have "(k + 1) * B \<le> (F div B) * B" using assms by (simp add: mult_right_mono)
  also have "\<dots> \<le> F"
  proof -
    have "F div B * B + F mod B = F" by simp
    moreover have "0 \<le> F mod B" using assms by simp
    ultimately show ?thesis by linarith
  qed
  finally show "k * B + B \<le> F" by (simp add: algebra_simps)
qed

section \<open>The start-index loop\<close>

lemma writeOffsets_append: "writeOffsets (xs @ ys) = writeOffsets xs @ writeOffsets ys"
  by (induction xs rule: writeOffsets.induct) simp_all

lemma readOffsets_append: "readOffsets (xs @ ys) = readOffsets xs @ readOffsets ys"
  by (induction xs rule: readOffsets.induct) simp_all

lemma draw_range: "0 < n \<Longrightarrow> draw s n = (k, s') \<Longrightarrow> 0 \<le> k \<and> k < n"
  by (auto simp: draw_def)

lemma Int63n_Inr: "Int63n s n = Inr (k, s') \<Longrightarrow> 0 < n \<and> 0 \<le> k \<and> k < n"
  by (auto simp: Int63n_def draw_def split: if_splits)

lemma Int63n_Inl: "Int63n s n = Inl p \<Longrightarrow> n \<le> 0"
  by (auto simp: Int63n_def split: if_splits)

lemma pickStart_Some:
  assumes "pickStart s sb tot = Some y"
  shows "case y of Inl p \<Rightarrow> tot \<le> 0
         | Inr (k, s') \<Rightarrow> 0 \<le> k \<and> k < tot \<and> wrap64 (k + sb) \<le> tot"
  using assms
proof (rule pickStart.raw_induct [rotated])
  fix f s sb tot y
  assume IH: "\<And>s sb tot y. f s sb tot = Some y \<Longrightarrow>
      (case y of Inl p \<Rightarrow> tot \<le> 0
       | Inr (k, s') \<Rightarrow> 0 \<le> k \<and> k < tot \<and> wrap64 (k + sb) \<le> tot)"
    and step: "(case Int63n s tot of Inl p \<Rightarrow> Some (Inl p)
       | Inr (offBlock, s') \<Rightarrow>
           if wrap64 (offBlock + sb) \<le> tot then Some (Inr (offBlock, s'))
           else f s' sb tot) = Some y"
  show "case y of Inl p \<Rightarrow> tot \<le> 0
        | Inr (k, s') \<Rightarrow> 0 \<le> k \<and> k < tot \<and> wrap64 (k + sb) \<le> tot"
  proof (cases "Int63n s tot")
    case (Inl p)
    with step show ?thesis by (auto dest: Int63n_Inl)
  next
    case (Inr q)
    obtain k s' where q: "q = (k, s')" by (cases q)
    show ?thesis
    proof (cases "wrap64 (k + sb) \<le> tot")
      case True
      with step Inr q show ?thesis by (auto dest: Int63n_Inr)
    next
      case False
      with step Inr q have "f s' sb tot = Some y" by simp
      then show ?thesis by (rule IH)
    qed
  qed
qed

lemma pickStart_Inr:
  "pickStart s sb tot = Some (Inr (k, s')) \<Longrightarrow> 0 \<le> k \<and> k < tot \<and> wrap64 (k + sb) \<le> tot"
  by (drule pickStart_Some) simp

lemma pickStart_Inl: "pickStart s sb tot = Some (Inl p) \<Longrightarrow> tot \<le> 0"
  by (drule pickStart_Some) simp

lemma pickStart_diverges:
  assumes "0 < tot" and "\<And>k. 0 \<le> k \<Longrightarrow> k < tot \<Longrightarrow> tot < wrap64 (k + sb)"
  shows "pickStart s sb tot = None"
proof (rule ccontr)
  assume "pickStart s sb tot \<noteq> None"
  then obtain y where "pickStart s sb tot = Some y" by auto
  then show False
  proof (cases y)
    case (Inl p)
    with \<open>pickStart s sb tot = Some y\<close> assms(1) show False
      by (auto dest: pickStart_Inl)
  next
    case (Inr q)
    obtain k s' where "q = (k, s')" by (cases q)
    with Inr \<open>pickStart s sb tot = Some y\<close> have "0 \<le> k \<and> k < tot \<and> wrap64 (k + sb) \<le> tot"
      by (auto dest: pickStart_Inr)
    with assms(2) [of k] show False by auto
  qed
qed

text \<open>The loop ends as soon as the generator yields a start block that fits.\<close>

lemma pickStart_terminates:
  assumes "0 < tot" and "wrap64 (int (s n) mod tot + sb) \<le> tot"
  shows "\<exists>k s'. pickStart s sb tot = Some (Inr (k, s'))"
  using assms(2)
proof (induction n arbitrary: s)
  case 0
  then show ?case
    using assms(1) by (subst pickStart.simps) (simp add: Int63n_def draw_def)
next
  case (Suc n)
  show ?case
  proof (cases "wrap64 (int (s 0) mod tot + sb) \<le> tot")
    case True
    then show ?thesis
      using assms(1) by (subst pickStart.simps) (simp add: Int63n_def draw_def)
  next
    case False
    have "\<exists>k s'. pickStart (\<lambda>k. s (Suc k)) sb tot = Some (Inr (k, s'))"
      using Suc.prems by (intro Suc.IH) simp
    then show ?thesis
      using assms(1) False by (subst pickStart.simps) (simp add: Int63n_def draw_def)
  qed
qed

section \<open>The write loop keeps writes block-aligned\<close>

lemma emit_simps [simp]:
  "trace (emit ev st) = trace st @ [ev]" "fdata (emit ev st) = fdata st"
  "fsize (emit ev st) = fsize st" "off (emit ev st) = off st"
  "streamBlocks (emit ev st) = streamBlocks st" "rnd (emit ev st) = rnd st"
  "grnd (emit ev st) = grnd st"
  by (simp_all add: emit_def)

lemma WriteAt_simps [simp]:
  "trace (WriteAt b pos st) = trace st @ [EvWriteAt b pos]"
  "fsize (WriteAt b pos st) = max (fsize st) (pos + int (length b))"
  "off (WriteAt b pos st) = off st" "streamBlocks (WriteAt b pos st) = streamBlocks st"
  "rnd (WriteAt b pos st) = rnd st" "grnd (WriteAt b pos st) = grnd st"
  by (simp_all add: WriteAt_def)

lemma fdata_WriteAt:
  "fdata (WriteAt b pos st) p =
     (if pos \<le> p \<and> p < pos + int (length b) then b ! nat (p - pos) else fdata st p)"
  by (simp add: WriteAt_def)

lemma covered_emit:
  "covered B st \<Longrightarrow> (\<And>b pos. ev \<noteq> EvWriteAt b pos) \<Longrightarrow> covered B (emit ev st)"
  by (cases ev) (auto simp: covered_def writeOffsets_append)

lemma covered_WriteAt:
  assumes "covered B st" "0 \<le> pos" "B dvd pos" "int (length b) = B"
  shows "covered B (WriteAt b pos st)"
  using assms unfolding covered_def
  by (auto simp: writeOffsets_append fdata_WriteAt split: if_splits)

lemma place_props:
  assumes pl: "place cfg tot i st = Some (Inr st1)"
    and B: "B = blockSz cfg" "0 < B" "B < F" "F < 2 ^ 63" "tot = F div B"
    and i: "0 \<le> i" "mode cfg = ''seq'' \<longrightarrow> i < tot"
    and o: "0 \<le> off st" "off st < 2 ^ 63" "B dvd off st"
  shows "fdata st1 = fdata st \<and> trace st1 = trace st \<and> fsize st1 = fsize st
       \<and> (off st1 < 0 \<or> (0 \<le> off st1 \<and> off st1 < 2 ^ 63 \<and> B dvd off st1))"
proof -
  have inblock: "wrap64 (k * B) = k * B \<and> 0 \<le> k * B \<and> k * B < 2 ^ 63 \<and> B dvd k * B"
    if "0 \<le> k" "k < tot" for k
  proof -
    from block_in_file [OF B(2) that(1)] that(2) B(5)
    have "0 \<le> k * B" "k * B + B \<le> F" by simp_all
    with B show ?thesis by (simp add: wrap64_id)
  qed
  consider (rand) "mode cfg = ''rand''" | (seq) "mode cfg = ''seq''" | (stream) "mode cfg = ''stream''"
    | (other) "mode cfg \<noteq> ''rand''" "mode cfg \<noteq> ''seq''" "mode cfg \<noteq> ''stream''"
    by blast
  then show ?thesis
  proof cases
    case rand
    with pl obtain k r' where k: "Int63n (rnd st) tot = Inr (k, r')"
      and st1: "st1 = st\<lparr>rnd := r', off := wrap64 (k * blockSz cfg)\<rparr>"
      by (auto simp: place_def split: sum.splits)
    from Int63n_Inr [OF k] inblock [of k] show ?thesis
      by (simp add: st1 B(1) [symmetric])
  next
    case seq
    with pl have st1: "st1 = st\<lparr>off := wrap64 (i * blockSz cfg)\<rparr>"
      by (auto simp: place_def)
    from i seq inblock [of i] show ?thesis
      by (simp add: st1 B(1) [symmetric])
  next
    case stream
    show ?thesis
    proof (cases "streamBlocks st = 0")
      case True
      with pl stream obtain k g' offBlock r' where
        ps: "pickStart (rnd st) (wrap64 (minBlocks cfg + k)) tot = Some (Inr (offBlock, r'))"
        and st1: "st1 = st\<lparr>rnd := r', grnd := g', off := wrap64 (offBlock * blockSz cfg),
                   streamBlocks := wrap64 (wrap64 (minBlocks cfg + k) - 1)\<rparr>"
        by (auto simp: place_def Let_def split: sum.splits option.splits)
      from pickStart_Inr [OF ps] inblock [of offBlock] show ?thesis
        by (simp add: st1 B(1) [symmetric])
    next
      case False
      with pl stream have st1: "st1 = st\<lparr>off := wrap64 (off st + blockSz cfg),
                          streamBlocks := wrap64 (streamBlocks st - 1)\<rparr>"
        by (auto simp: place_def)
      have "wrap64 (off st + B) = off st + B \<or> wrap64 (off st + B) < 0"
        using o B by (intro wrap64_add_pos) simp_all
      moreover have "B dvd off st + B" using o by simp
      moreover have "0 \<le> off st + B" using o B by simp
      ultimately show ?thesis
        using wrap64_range [of "off st + B"] by (auto simp: st1 B(1) [symmetric])
    qed
  next
    case other
    with pl have "st1 = st" by (auto simp: place_def)
    with o show ?thesis by simp
  qed
qed

lemma writeBlock_inv:
  assumes wb: "writeBlock e cfg tot i st = Some (Inr st')"
    and B: "B = blockSz cfg" "B < F" "F < 2 ^ 63" "tot = wrap64 (tdiv F B)"
    and i: "0 \<le> i" "mode cfg = ''seq'' \<longrightarrow> i < tot"
    and inv: "loopHead B st"
  shows "loopHead B st' \<and> 8 \<le> B
       \<and> length (writeOffsets (trace st')) = Suc (length (writeOffsets (trace st)))"
proof -
  from wb obtain b g' where fb: "fillBuf (grnd st) (blockSz cfg) = Inr (b, g')"
    by (auto simp: writeBlock_def split: sum.splits)
  from fillBuf_Inr [OF fb] obtain b0 where
    B8: "8 \<le> B" and lb0: "length b0 = nat B" and b: "b = addChecksum b0"
    by (auto simp: B(1))
  have lb: "int (length b) = B" using B8 lb0 b by (simp add: length_addChecksum)
  have tot: "tot = F div B" using B B8 by (simp add: totalBlocks_eq)
  from wb fb obtain st1 where pl: "place cfg tot i (st\<lparr>grnd := g'\<rparr>) = Some (Inr st1)"
    by (auto simp: writeBlock_def split: sum.splits option.splits)
  have pp: "fdata st1 = fdata st \<and> trace st1 = trace st \<and> fsize st1 = fsize st
       \<and> (off st1 < 0 \<or> (0 \<le> off st1 \<and> off st1 < 2 ^ 63 \<and> B dvd off st1))"
    using place_props [OF pl B(1) _ B(2,3) tot i] inv B8 by (simp add: loopHead_def)
  define st2 where "st2 = (if verbose cfg then emit (VerboseW (off st1) (length b)) st1 else st1)"
  from wb fb pl have nf: "\<not> off st2 < 0"
    and st': "st' = WriteAt b (off st2) st2 \<or> st' = emit EvSync (WriteAt b (off st2) st2)"
    by (auto simp: writeBlock_def Let_def st2_def split: if_splits)
  have o2: "off st2 = off st1" and w2: "writeOffsets (trace st2) = writeOffsets (trace st)"
    using pp by (auto simp: st2_def writeOffsets_append)
  from inv pp have "covered B st1" by (simp add: loopHead_def covered_def)
  then have c2: "covered B st2" by (auto simp: st2_def intro: covered_emit)
  from nf o2 pp have o: "0 \<le> off st2" "off st2 < 2 ^ 63" "B dvd off st2" by auto
  have c3: "covered B (WriteAt b (off st2) st2)"
    using c2 o lb by (intro covered_WriteAt) simp_all
  from st' show ?thesis
  proof
    assume "st' = WriteAt b (off st2) st2"
    with c3 o B8 w2 show ?thesis by (simp add: loopHead_def writeOffsets_append)
  next
    assume "st' = emit EvSync (WriteAt b (off st2) st2)"
    with covered_emit [OF c3, of EvSync] o B8 w2 show ?thesis
      by (simp add: loopHead_def writeOffsets_append)
  qed
qed

lemma writeLoop_inv:
  assumes "writeLoop e cfg tot i st = Some (Inr st')"
    and "B = blockSz cfg" "B < F" "F < 2 ^ 63" "tot = wrap64 (tdiv F B)"
    and "0 \<le> i" "mode cfg = ''seq'' \<longrightarrow> numBlocks cfg \<le> tot"
    and "loopHead B st"
  shows "covered B st'
       \<and> int (length (writeOffsets (trace st'))) = int (length (writeOffsets (trace st))) + max 0 (numBlocks cfg - i)"
  using assms
proof (induction e cfg tot i st rule: writeLoop.induct)
  case (1 e cfg tot i st)
  show ?case
  proof (cases "i < numBlocks cfg")
    case False
    with "1.prems" show ?thesis
      by (simp add: writeLoop.simps loopHead_def)
  next
    case True
    with "1.prems"(1) obtain st1 where
      wb: "writeBlock e cfg tot i st = Some (Inr st1)"
      and rest: "writeLoop e cfg tot (i + 1) st1 = Some (Inr st')"
      by (subst (asm) writeLoop.simps) (auto split: option.splits sum.splits)
    have seq: "mode cfg = ''seq'' \<longrightarrow> i < tot" using True "1.prems"(7) by auto
    from writeBlock_inv [OF wb "1.prems"(2-6) seq "1.prems"(8)]
    have h: "loopHead B st1"
      and l: "length (writeOffsets (trace st1)) = Suc (length (writeOffsets (trace st)))"
      by simp_all
    have "covered B st' \<and> int (length (writeOffsets (trace st')))
            = int (length (writeOffsets (trace st1))) + max 0 (numBlocks cfg - (i + 1))"
      using True wb rest "1.prems" h by (intro "1.IH") simp_all
    then show ?thesis using l True by simp
  qed
qed

section \<open>The verification loop counts non-zero blocks\<close>

lemma readBytes_cong: "fdata st' = fdata st \<Longrightarrow> readBytes st' = readBytes st"
  by (simp add: readBytes_def fun_eq_iff)

lemma printBufFrom_file:
  "printBufFrom b i st = (r, st') \<Longrightarrow> fdata st' = fdata st \<and> fsize st' = fsize st"
proof (induction b i st arbitrary: r st' rule: printBufFrom.induct)
  case (1 b i st)
  show ?case
  proof (cases "i < length b")
    case False
    with "1.prems" show ?thesis by (simp add: printBufFrom.simps)
  next
    case True
    show ?thesis
    proof (cases "dumpRow b i [0..<16] ([], [])")
      case (Inl p)
      with True "1.prems" show ?thesis by (simp add: printBufFrom.simps)
    next
      case (Inr q)
      obtain hex str where q: "q = (hex, str)" by (cases q)
      from True Inr q "1.prems"
      have "printBufFrom b (i + 16) (emit (DumpLine i hex str) st) = (r, st')"
        by (simp add: printBufFrom.simps)
      from "1.IH" [OF True Inr q [symmetric] this] show ?thesis by simp
    qed
  qed
qed

lemma readState_file [simp]:
  "fdata (readState cfg i st) = fdata st" "fsize (readState cfg i st) = fsize st"
  by (simp_all add: readState_def)

lemma countedState_file [simp]:
  "fdata (countedState cfg i st) = fdata st" "fsize (countedState cfg i st) = fsize st"
  by (simp_all add: countedState_def)

lemma readBytes_emit [simp]: "readBytes (emit ev st) pos n = readBytes st pos n"
  by (simp add: readBytes_def)

lemma verifyBlock_cases:
  "verifyBlock e cfg i c st =
     (if readFailed e cfg i st then
        (None, c, emit (ReadFailed (wrap64 (i * blockSz cfg))) (readState cfg i st))
      else if blockAt cfg st i = replicate (nat (blockSz cfg)) 0 then (None, c, readState cfg i st)
      else
        (case verifyBuf (blockAt cfg st i) of
           Inl p \<Rightarrow> (Some p, c + 1, countedState cfg i st)
         | Inr True \<Rightarrow> (None, c + 1, countedState cfg i st)
         | Inr False \<Rightarrow>
             (case printBuf (blockAt cfg st i) (emit (DidNotVerify i) (countedState cfg i st)) of
                (r, st4) \<Rightarrow> (r, c + 1, st4))))"
proof (cases "verbose cfg")
  case True
  then show ?thesis
    unfolding verifyBlock_def Let_def readFailed_def blockAt_def countedState_def readState_def
    by (simp only: if_True readBytes_emit emit_simps)
next
  case False
  then show ?thesis
    unfolding verifyBlock_def Let_def readFailed_def blockAt_def countedState_def readState_def
    by (simp only: if_False readBytes_emit emit_simps)
qed

lemma verifyBlock_props:
  assumes "verifyBlock e cfg i c st = (r, c', st')"
  shows "fdata st' = fdata st \<and> fsize st' = fsize st \<and> c \<le> c'
       \<and> c' \<le> c + (if blockAt cfg st i \<noteq> replicate (nat (blockSz cfg)) 0 then 1 else 0)"
proof (cases "readFailed e cfg i st \<or> blockAt cfg st i = replicate (nat (blockSz cfg)) 0")
  case True
  with assms show ?thesis
    by (auto simp: verifyBlock_cases split: if_splits)
next
  case False
  show ?thesis
  proof (cases "verifyBuf (blockAt cfg st i)")
    case (Inl p)
    with False assms show ?thesis by (auto simp: verifyBlock_cases)
  next
    case (Inr ok)
    show ?thesis
    proof (cases ok)
      case True
      with Inr False assms show ?thesis by (auto simp: verifyBlock_cases)
    next
      case nok: False
      obtain r4 st4 where
        pb: "printBuf (blockAt cfg st i) (emit (DidNotVerify i) (countedState cfg i st)) = (r4, st4)"
        by (cases "printBuf (blockAt cfg st i) (emit (DidNotVerify i) (countedState cfg i st))")
      from printBufFrom_file [OF pb [unfolded printBuf_def]]
      have "fdata st4 = fdata st" "fsize st4 = fsize st" by simp_all
      with nok Inr False assms pb show ?thesis by (auto simp: verifyBlock_cases)
    qed
  qed
qed

lemma finite_nonzeroBlocks: "finite (nonzeroBlocks cfg st i tot)"
  by (rule finite_subset [of _ "{i..<tot}"]) (auto simp: nonzeroBlocks_def)

lemma nonzeroBlocks_step:
  assumes "i < tot"
  shows "nonzeroBlocks cfg st i tot =
     (if blockAt cfg st i \<noteq> replicate (nat (blockSz cfg)) 0
      then insert i (nonzeroBlocks cfg st (i + 1) tot) else nonzeroBlocks cfg st (i + 1) tot)"
proof -
  have "i \<le> j \<longleftrightarrow> j = i \<or> i + 1 \<le> j" for j :: int by arith
  with assms show ?thesis unfolding nonzeroBlocks_def by auto
qed

lemma card_nonzeroBlocks_step:
  assumes "i < tot"
  shows "int (card (nonzeroBlocks cfg st i tot)) =
     (if blockAt cfg st i \<noteq> replicate (nat (blockSz cfg)) 0 then 1 else 0)
       + int (card (nonzeroBlocks cfg st (i + 1) tot))"
proof -
  have "i \<notin> nonzeroBlocks cfg st (i + 1) tot" by (simp add: nonzeroBlocks_def)
  then show ?thesis
    by (simp add: nonzeroBlocks_step [OF assms] finite_nonzeroBlocks)
qed

lemma verifyLoop_count:
  assumes "verifyLoop e cfg tot i c st = (r, c', st')"
  shows "fdata st' = fdata st \<and> c' \<le> c + int (card (nonzeroBlocks cfg st i tot))"
  using assms
proof (induction e cfg tot i c st rule: verifyLoop.induct)
  case (1 e cfg tot i c st)
  show ?case
  proof (cases "i < tot")
    case False
    with "1.prems" show ?thesis by (simp add: verifyLoop.simps)
  next
    case True
    obtain r1 c1 st1 where vb: "verifyBlock e cfg i c st = (r1, c1, st1)"
      by (cases "verifyBlock e cfg i c st")
    from verifyBlock_props [OF vb]
    have f1: "fdata st1 = fdata st"
      and c1: "c1 \<le> c + (if blockAt cfg st i \<noteq> replicate (nat (blockSz cfg)) 0 then 1 else 0)"
      by simp_all
    have nz1: "nonzeroBlocks cfg st1 (i + 1) tot = nonzeroBlocks cfg st (i + 1) tot"
      unfolding nonzeroBlocks_def blockAt_def readBytes_cong [OF f1] ..
    have step: "c + (if blockAt cfg st i \<noteq> replicate (nat (blockSz cfg)) 0 then 1 else 0)
                 + int (card (nonzeroBlocks cfg st (i + 1) tot))
               = c + int (card (nonzeroBlocks cfg st i tot))"
      by (simp add: card_nonzeroBlocks_step [OF True])
    show ?thesis
    proof (cases r1)
      case (Some p)
      with True vb "1.prems" have eq: "c' = c1" "st' = st1"
        by (simp_all add: verifyLoop.simps)
      from c1 step eq have "c' \<le> c + int (card (nonzeroBlocks cfg st i tot))" by linarith
      with f1 eq show ?thesis by simp
    next
      case None
      with True vb "1.prems" have "verifyLoop e cfg tot (i + 1) c1 st1 = (r, c', st')"
        by (simp add: verifyLoop.simps)
      from "1.IH" [OF True vb [symmetric] _ _ this] None
      have ih: "fdata st' = fdata st1" "c' \<le> c1 + int (card (nonzeroBlocks cfg st1 (i + 1) tot))"
        by simp_all
      from ih(2) c1 step have "c' \<le> c + int (card (nonzeroBlocks cfg st i tot))"
        unfolding nz1 by linarith
      with f1 ih(1) show ?thesis by simp
    qed
  qed
qed

lemma readBytes_nonzero:
  assumes "readBytes st pos n \<noteq> replicate n 0"
  shows "\<exists>k < n. fdata st (pos + int k) \<noteq> 0"
proof (rule ccontr)
  assume "\<not> (\<exists>k < n. fdata st (pos + int k) \<noteq> 0)"
  then have "readBytes st pos n = replicate n 0"
    by (auto simp: readBytes_def list_eq_iff_nth_eq)
  with assms show False by simp
qed

lemma div_block:
  fixes B m r :: int
  assumes "0 < B" "0 \<le> r" "r < B"
  shows "(m * B + r) div B = m"
  using assms by (simp add: div_pos_pos_trivial)

lemma same_block:
  fixes B w p j k :: int
  assumes "0 < B" "B dvd w" "w \<le> p" "p < w + B" "p = j * B + k" "0 \<le> k" "k < B"
  shows "w = j * B"
proof -
  from assms(2) obtain m where m: "w = m * B" by (auto simp: dvd_def mult.commute)
  have "p div B = j" unfolding assms(5) using assms(1,6,7) by (rule div_block)
  moreover have "p div B = m"
  proof -
    have "p = m * B + (p - w)" using m by simp
    then have "p div B = (m * B + (p - w)) div B" by simp
    also have "\<dots> = m" using assms by (intro div_block) simp_all
    finally show ?thesis .
  qed
  ultimately show ?thesis using m by simp
qed

lemma nonzero_blocks_written:
  assumes cov: "covered B st" and B: "B = blockSz cfg" "0 < B" "tot = F div B" "F < 2 ^ 63"
  shows "card (nonzeroBlocks cfg st 0 tot) \<le> length (writeOffsets (trace st))"
proof -
  let ?W = "set (writeOffsets (trace st))"
  have sub: "nonzeroBlocks cfg st 0 tot \<subseteq> (\<lambda>w. w div B) ` ?W"
  proof
    fix j assume "j \<in> nonzeroBlocks cfg st 0 tot"
    then have j: "0 \<le> j" "j < tot" and nz: "blockAt cfg st j \<noteq> replicate (nat B) 0"
      by (simp_all add: nonzeroBlocks_def B(1))
    from block_in_file [OF B(2) j(1)] j(2) B(3) have jb: "0 \<le> j * B" "j * B + B \<le> F" by simp_all
    with B have "wrap64 (j * B) = j * B" by (simp add: wrap64_id)
    with nz have "readBytes st (j * B) (nat B) \<noteq> replicate (nat B) 0"
      by (simp add: blockAt_def B(1))
    from readBytes_nonzero [OF this] obtain k where k: "k < nat B" "fdata st (j * B + int k) \<noteq> 0"
      by blast
    with cov obtain w where w: "w \<in> ?W" "w \<le> j * B + int k" "j * B + int k < w + B" "B dvd w"
      by (auto simp: covered_def)
    have "w = j * B"
      using B(2) w(4,2,3) k(1) by (intro same_block [where k = "int k" and p = "j * B + int k"]) simp_all
    then have "j = w div B" using B(2) by simp
    with w(1) show "j \<in> (\<lambda>w. w div B) ` ?W" by blast
  qed
  have "card (nonzeroBlocks cfg st 0 tot) \<le> card ((\<lambda>w. w div B) ` ?W)"
    by (intro card_mono sub) simp
  also have "\<dots> \<le> card ?W" by (intro card_image_le) simp
  also have "\<dots> \<le> length (writeOffsets (trace st))" by (rule card_length)
  finally show ?thesis .
qed

section \<open>What the trace reports\<close>

lemma verifiedCounts_append: "verifiedCounts (xs @ ys) = verifiedCounts xs @ verifiedCounts ys"
  by (induction xs rule: verifiedCounts.induct) simp_all

lemma Ftruncate_simps [simp]:
  "trace (Ftruncate sz st) = trace st @ [EvFtruncate sz]"
  "fsize (Ftruncate sz st) = sz" "off (Ftruncate sz st) = off st"
  "streamBlocks (Ftruncate sz st) = streamBlocks st"
  "rnd (Ftruncate sz st) = rnd st" "grnd (Ftruncate sz st) = grnd st"
  by (simp_all add: Ftruncate_def)

lemma init_simps [simp]:
  "trace (init e cfg) = []" "fdata (init e cfg) = (\<lambda>p. 0)" "fsize (init e cfg) = 0"
  "off (init e cfg) = 0" "streamBlocks (init e cfg) = 0"
  "rnd (init e cfg) = NewSource e (seed cfg)" "grnd (init e cfg) = globalRand e"
  by (simp_all add: init_def)

lemma fdata_Ftruncate_zero: "fdata st = (\<lambda>p. 0) \<Longrightarrow> fdata (Ftruncate sz st) = (\<lambda>p. 0)"
  by (auto simp: Ftruncate_def)

lemma place_trace: "place cfg tot i st = Some (Inr st1) \<Longrightarrow> trace st1 = trace st"
  by (auto simp: place_def Let_def split: if_splits sum.splits option.splits)

lemma writeBlock_counts:
  assumes "writeBlock e cfg tot i st = Some r"
  shows "verifiedCounts (trace (case r of Inl (x, st') \<Rightarrow> st' | Inr st' \<Rightarrow> st')) = verifiedCounts (trace st)
       \<and> (\<forall>x st'. r = Inl (x, st') \<longrightarrow> (\<forall>c n. x \<noteq> Fatal (VerifiedMore c n)))"
proof (cases "fillBuf (grnd st) (blockSz cfg)")
  case (Inl f)
  with assms show ?thesis
    by (auto simp: writeBlock_def fillBuf_def split: if_splits prod.splits)
next
  case (Inr q)
  obtain b g' where q: "q = (b, g')" by (cases q)
  show ?thesis
  proof (cases "place cfg tot i (st\<lparr>grnd := g'\<rparr>)")
    case None
    with Inr q assms show ?thesis by (simp add: writeBlock_def)
  next
    case (Some pr)
    show ?thesis
    proof (cases pr)
      case (Inl p)
      with Some Inr q assms show ?thesis by (auto simp: writeBlock_def)
    next
      case (Inr st1)
      from place_trace [OF Some [unfolded Inr]] have "trace st1 = trace st" by simp
      with Inr Some \<open>fillBuf (grnd st) (blockSz cfg) = Inr q\<close> q assms show ?thesis
        by (auto simp: writeBlock_def Let_def verifiedCounts_append split: if_splits)
    qed
  qed
qed

lemma writeLoop_counts:
  assumes "writeLoop e cfg tot i st = Some r"
  shows "verifiedCounts (trace (case r of Inl (x, st') \<Rightarrow> st' | Inr st' \<Rightarrow> st')) = verifiedCounts (trace st)
       \<and> (\<forall>x st'. r = Inl (x, st') \<longrightarrow> (\<forall>c n. x \<noteq> Fatal (VerifiedMore c n)))"
  using assms
proof (induction e cfg tot i st rule: writeLoop.induct)
  case (1 e cfg tot i st)
  show ?case
  proof (cases "i < numBlocks cfg")
    case False
    with "1.prems" show ?thesis by (auto simp: writeLoop.simps)
  next
    case True
    show ?thesis
    proof (cases "writeBlock e cfg tot i st")
      case None
      with True "1.prems" show ?thesis by (simp add: writeLoop.simps)
    next
      case (Some r1)
      note wb = writeBlock_counts [OF Some]
      show ?thesis
      proof (cases r1)
        case (Inl xs)
        with Some True "1.prems" have "r = Inl xs" by (simp add: writeLoop.simps)
        with wb Inl show ?thesis by simp
      next
        case (Inr st1)
        with Some True "1.prems" have "writeLoop e cfg tot (i + 1) st1 = Some r"
          by (simp add: writeLoop.simps)
        from "1.IH" [OF True Some Inr this] wb Inr show ?thesis by simp
      qed
    qed
  qed
qed

lemma printBufFrom_counts:
  "printBufFrom b i st = (r, st') \<Longrightarrow> verifiedCounts (trace st') = verifiedCounts (trace st)"
proof (induction b i st arbitrary: r st' rule: printBufFrom.induct)
  case (1 b i st)
  show ?case
  proof (cases "i < length b")
    case False
    with "1.prems" show ?thesis by (simp add: printBufFrom.simps)
  next
    case True
    show ?thesis
    proof (cases "dumpRow b i [0..<16] ([], [])")
      case (Inl p)
      with True "1.prems" show ?thesis by (simp add: printBufFrom.simps)
    next
      case (Inr q)
      obtain hex str where q: "q = (hex, str)" by (cases q)
      from True Inr q "1.prems"
      have "printBufFrom b (i + 16) (emit (DumpLine i hex str) st) = (r, st')"
        by (simp add: printBufFrom.simps)
      from "1.IH" [OF True Inr q [symmetric] this] show ?thesis
        by (simp add: verifiedCounts_append)
    qed
  qed
qed

lemma readState_counts [simp]:
  "verifiedCounts (trace (readState cfg i st)) = verifiedCounts (trace st)"
  "verifiedCounts (trace (countedState cfg i st)) = verifiedCounts (trace st)"
  by (simp_all add: readState_def countedState_def verifiedCounts_append)

lemma verifyBlock_counts:
  assumes "verifyBlock e cfg i c st = (r, c', st')"
  shows "verifiedCounts (trace st') = verifiedCounts (trace st)"
proof (cases "readFailed e cfg i st \<or> blockAt cfg st i = replicate (nat (blockSz cfg)) 0")
  case True
  with assms show ?thesis
    by (auto simp: verifyBlock_cases verifiedCounts_append split: if_splits)
next
  case False
  show ?thesis
  proof (cases "verifyBuf (blockAt cfg st i)")
    case (Inl p)
    with False assms show ?thesis by (auto simp: verifyBlock_cases)
  next
    case (Inr ok)
    show ?thesis
    proof (cases ok)
      case True
      with Inr False assms show ?thesis by (auto simp: verifyBlock_cases)
    next
      case nok: False
      obtain r4 st4 where
        pb: "printBuf (blockAt cfg st i) (emit (DidNotVerify i) (countedState cfg i st)) = (r4, st4)"
        by (cases "printBuf (blockAt cfg st i) (emit (DidNotVerify i) (countedState cfg i st))")
      from printBufFrom_counts [OF pb [unfolded printBuf_def]]
      have "verifiedCounts (trace st4) = verifiedCounts (trace st)"
        by (simp add: verifiedCounts_append)
      with nok Inr False assms pb show ?thesis by (auto simp: verifyBlock_cases)
    qed
  qed
qed

lemma verifyLoop_counts:
  assumes "verifyLoop e cfg tot i c st = (r, c', st')"
  shows "verifiedCounts (trace st') = verifiedCounts (trace st)"
  using assms
proof (induction e cfg tot i c st rule: verifyLoop.induct)
  case (1 e cfg tot i c st)
  show ?case
  proof (cases "i < tot")
    case False
    with "1.prems" show ?thesis by (simp add: verifyLoop.simps)
  next
    case True
    obtain r1 c1 st1 where vb: "verifyBlock e cfg i c st = (r1, c1, st1)"
      by (cases "verifyBlock e cfg i c st")
    note t1 = verifyBlock_counts [OF vb]
    show ?thesis
    proof (cases r1)
      case (Some p)
      with True vb "1.prems" have "st' = st1" by (simp add: verifyLoop.simps)
      with t1 show ?thesis by simp
    next
      case None
      with True vb "1.prems" have "verifyLoop e cfg tot (i + 1) c1 st1 = (r, c', st')"
        by (simp add: verifyLoop.simps)
      from "1.IH" [OF True vb [symmetric] _ _ this] None t1 show ?thesis by simp
    qed
  qed
qed

lemma verifyPhase_bound:
  assumes vp: "verifyPhase e cfg tot st = (x, st')"
    and cov: "covered (blockSz cfg) st" and B: "blockSz cfg \<noteq> 0" "blockSz cfg < F" "F < 2 ^ 63"
    and tot: "tot = wrap64 (tdiv F (blockSz cfg))"
    and len: "int (length (writeOffsets (trace st))) \<le> numBlocks cfg"
    and nov: "verifiedCounts (trace st) = []"
  shows "(\<forall>c n. x \<noteq> Fatal (VerifiedMore c n))
       \<and> (\<forall>c \<in> set (verifiedCounts (trace st')). c \<le> numBlocks cfg)"
proof (cases "blockSz cfg < 0")
  case True
  with vp nov show ?thesis
    by (auto simp: verifyPhase_def Let_def verifiedCounts_append)
next
  case False
  with B have Bpos: "0 < blockSz cfg" by simp
  define st1 where "st1 = emit (Println ''Verify the file'') st"
  obtain r c st2 where vl: "verifyLoop e cfg tot 0 0 st1 = (r, c, st2)"
    by (cases "verifyLoop e cfg tot 0 0 st1")
  have cov1: "covered (blockSz cfg) st1"
    unfolding st1_def by (rule covered_emit [OF cov]) simp
  have tot': "tot = F div blockSz cfg"
    using tot Bpos B by (simp add: totalBlocks_eq)
  have "card (nonzeroBlocks cfg st1 0 tot) \<le> length (writeOffsets (trace st1))"
    using cov1 _ Bpos tot' B(3) by (rule nonzero_blocks_written) simp
  also have "length (writeOffsets (trace st1)) = length (writeOffsets (trace st))"
    by (simp add: st1_def writeOffsets_append)
  finally have "int (card (nonzeroBlocks cfg st1 0 tot)) \<le> numBlocks cfg"
    using len by simp
  with verifyLoop_count [OF vl] have c: "c \<le> numBlocks cfg" by simp
  have t2: "verifiedCounts (trace st2) = []"
    using verifyLoop_counts [OF vl] nov by (simp add: st1_def verifiedCounts_append)
  show ?thesis
  proof (cases r)
    case (Some p)
    with vp vl False t2 show ?thesis
      by (auto simp: verifyPhase_def Let_def st1_def [symmetric])
  next
    case None
    with vp vl False t2 c show ?thesis
      by (auto simp: verifyPhase_def Let_def st1_def [symmetric] verifiedCounts_append)
  qed
qed

lemma beforeWrites_simps [simp]:
  "trace (beforeWrites e cfg) =
     [Println (''Create file: '' @ fileName cfg), Create (fileName cfg), Println ''Ftruncate file'',
      EvFtruncate (fileSz cfg), Println ''Write data'']"
  "fdata (beforeWrites e cfg) = (\<lambda>p. 0)" "fsize (beforeWrites e cfg) = fileSz cfg"
  "off (beforeWrites e cfg) = 0" "streamBlocks (beforeWrites e cfg) = 0"
  "rnd (beforeWrites e cfg) = NewSource e (seed cfg)" "grnd (beforeWrites e cfg) = globalRand e"
  by (simp_all add: beforeWrites_def fdata_Ftruncate_zero)

lemma main_cases:
  "main e cfg =
     (if blockSz cfg = 0 then Some (Panic DivideByZero, init e cfg)
      else if fileSz cfg \<le> blockSz cfg then Some (Fatal BlocksizeNotSmaller, init e cfg)
      else if maxBlocks cfg \<le> minBlocks cfg then Some (Fatal StreamMinNotLess, init e cfg)
      else if mode cfg = ''seq'' \<and> wrap64 (tdiv (fileSz cfg) (blockSz cfg)) < numBlocks cfg then
        Some (Fatal FilesizeTooSmall, init e cfg)
      else if createFails e then
        Some (Fatal OpenFile, emit (Println (''Create file: '' @ fileName cfg)) (init e cfg))
      else if ftruncateFails e \<or> fileSz cfg < 0 then
        Some (Fatal FtruncateFailed,
          emit (Println ''Ftruncate file'')
            (emit (Create (fileName cfg))
               (emit (Println (''Create file: '' @ fileName cfg)) (init e cfg))))
      else
        (case writeLoop e cfg (wrap64 (tdiv (fileSz cfg) (blockSz cfg))) 0 (beforeWrites e cfg) of
           None \<Rightarrow> None
         | Some (Inl x) \<Rightarrow> Some x
         | Some (Inr st4) \<Rightarrow>
             Some (verifyPhase e cfg (wrap64 (tdiv (fileSz cfg) (blockSz cfg))) st4)))"
  unfolding main_def Let_def beforeWrites_def by (rule refl)

lemma randFill_closed_aux:
  "i \<le> n \<Longrightarrow> length b = n \<Longrightarrow>
   randFill b [i..<n] s =
     (take i b @ map (\<lambda>k. of_int (int (s (k - i)) mod 255)) [i..<n], \<lambda>k. s (k + (n - i)))"
proof (induction "n - i" arbitrary: i b s)
  case 0
  then show ?case by simp
next
  case (Suc m)
  then have i: "i < n" by simp
  have upt: "[i..<n] = i # [Suc i..<n]" using i by (simp add: upt_rec)
  have IH: "randFill (b[i := of_int (int (s 0) mod 255)]) [Suc i..<n] (\<lambda>k. s (Suc k)) =
     (take (Suc i) (b[i := of_int (int (s 0) mod 255)])
        @ map (\<lambda>k. of_int (int (s (Suc (k - Suc i))) mod 255)) [Suc i..<n],
      \<lambda>k. s (Suc (k + (n - Suc i))))"
    using Suc.hyps(2) Suc.prems i by (intro Suc.hyps(1)) simp_all
  have t: "take (Suc i) (b[i := x]) = take i b @ [x]" for x
    using i Suc.prems by (simp add: take_Suc_conv_app_nth)
  have m: "map (\<lambda>k. of_int (int (s (Suc (k - Suc i))) mod 255) :: byte) [Suc i..<n]
         = map (\<lambda>k. of_int (int (s (k - i)) mod 255)) [Suc i..<n]"
  proof (rule map_cong)
    fix k assume "k \<in> set [Suc i..<n]"
    then have "Suc (k - Suc i) = k - i" by auto
    then show "(of_int (int (s (Suc (k - Suc i))) mod 255) :: byte) = of_int (int (s (k - i)) mod 255)"
      by (simp only:)
  qed simp
  have f: "(\<lambda>k. s (Suc (k + (n - Suc i)))) = (\<lambda>k. s (k + (n - i)))"
  proof (rule ext)
    fix k
    have "Suc (k + (n - Suc i)) = k + (n - i)" using i by simp
    then show "s (Suc (k + (n - Suc i))) = s (k + (n - i))" by (simp only:)
  qed
  show ?case
    by (simp add: upt draw_def IH t m f)
qed

lemma randFill_closed:
  "randFill (replicate n 0) [0..<n] s =
     (map (\<lambda>k. of_int (int (s k) mod 255)) [0..<n], \<lambda>k. s (k + n))"
  using randFill_closed_aux [of 0 n "replicate n 0" s] by simp

lemma fillBuf_eq:
  assumes "8 \<le> n" "n mod 4 = 0"
  shows "fillBuf s n = Inr (addChecksum (drawn s (nat n)), \<lambda>k. s (k + nat n))"
  using assms by (simp add: fillBuf_def tmod_nonneg randFill_closed drawn_def)

lemma length_drawn [simp]: "length (drawn s n) = n"
  by (simp add: drawn_def)

lemma intact_addChecksum: "4 \<le> length b \<Longrightarrow> intact (addChecksum b)"
  using addChecksum_not_zero [of b]
  by (simp add: intact_def verifyBuf_addChecksum length_addChecksum)

lemma afterWrite_simps [simp]:
  "off (afterWrite cfg i b st) = off st"
  "streamBlocks (afterWrite cfg i b st) = streamBlocks st"
  "rnd (afterWrite cfg i b st) = rnd st"
  "grnd (afterWrite cfg i b st) = grnd st"
  "fsize (afterWrite cfg i b st) = max (fsize st) (off st + int (length b))"
  "fdata (afterWrite cfg i b st) = fdata (WriteAt b (off st) st)"
  "writeOffsets (trace (afterWrite cfg i b st)) = writeOffsets (trace st) @ [off st]"
  "readOffsets (trace (afterWrite cfg i b st)) = readOffsets (trace st)"
  "verifiedCounts (trace (afterWrite cfg i b st)) = verifiedCounts (trace st)"
  by (simp_all add: afterWrite_def Let_def writeOffsets_append readOffsets_append
      verifiedCounts_append fun_eq_iff fdata_WriteAt)

lemma writeBlock_step:
  assumes "8 \<le> blockSz cfg" "blockSz cfg mod 4 = 0"
    and "place cfg tot i (st\<lparr>grnd := \<lambda>k. grnd st (k + nat (blockSz cfg))\<rparr>) = Some (Inr st1)"
    and "0 \<le> off st1" "\<not> writeFails e i" "\<not> syncFails e i"
  shows "writeBlock e cfg tot i st =
           Some (Inr (afterWrite cfg i (addChecksum (drawn (grnd st) (nat (blockSz cfg)))) st1))"
  using assms
  by (simp add: writeBlock_def fillBuf_eq afterWrite_def Let_def)

lemma readBytes_WriteAt_same:
  "length b = n \<Longrightarrow> readBytes (WriteAt b pos st) pos n = b"
  by (auto simp: readBytes_def fdata_WriteAt list_eq_iff_nth_eq)

lemma readBytes_WriteAt_other:
  "pos' + int n \<le> pos \<or> pos + int (length b) \<le> pos' \<Longrightarrow>
   readBytes (WriteAt b pos st) pos' n = readBytes st pos' n"
  by (auto simp: readBytes_def fdata_WriteAt)

lemma readBytes_zero: "fdata st = (\<lambda>p. 0) \<Longrightarrow> readBytes st pos n = replicate n 0"
  by (simp add: readBytes_def map_replicate_const)

text \<open>Block \<open>j\<close> of a file after a write to block \<open>q\<close>.\<close>

lemma blockAt_write:
  assumes "0 < blockSz cfg" "fdata st' = fdata (WriteAt b (q * blockSz cfg) st)"
    and "length b = nat (blockSz cfg)"
    and "0 \<le> q" "0 \<le> j" "q * blockSz cfg < 2 ^ 63" "j * blockSz cfg < 2 ^ 63"
  shows "blockAt cfg st' j = (if j = q then b else blockAt cfg st j)"
proof -
  let ?B = "blockSz cfg"
  have "0 \<le> j * ?B" using assms(1,5) by (simp add: zero_le_mult_iff)
  then have w: "wrap64 (j * ?B) = j * ?B"
    using assms(7) by (simp add: wrap64_id)
  have rb: "readBytes st' = readBytes (WriteAt b (q * ?B) st)"
    using assms(2) by (rule readBytes_cong)
  show ?thesis
  proof (cases "j = q")
    case True
    with w assms(3) show ?thesis
      by (simp add: blockAt_def rb readBytes_WriteAt_same)
  next
    case False
    then have "j < q \<or> q < j" by auto
    then have "j * ?B + ?B \<le> q * ?B \<or> q * ?B + ?B \<le> j * ?B"
    proof
      assume "j < q"
      then have "(j + 1) * ?B \<le> q * ?B" using assms(1) by (intro mult_right_mono) simp_all
      then show ?thesis by (simp add: algebra_simps)
    next
      assume "q < j"
      then have "(q + 1) * ?B \<le> j * ?B" using assms(1) by (intro mult_right_mono) simp_all
      then show ?thesis by (simp add: algebra_simps)
    qed
    then have "readBytes (WriteAt b (q * ?B) st) (j * ?B) (nat ?B) = readBytes st (j * ?B) (nat ?B)"
      using assms(1,3) by (intro readBytes_WriteAt_other) auto
    with False show ?thesis by (simp add: blockAt_def w rb)
  qed
qed

lemma scan_no_writes: "list_all scanEvent evs \<Longrightarrow> writeOffsets evs = []"
  by (induction evs rule: writeOffsets.induct) simp_all

lemma printBufFrom_trace:
  "printBufFrom b i st = (r, st') \<Longrightarrow>
     \<exists>evs. trace st' = trace st @ evs \<and> list_all scanEvent evs \<and> readOffsets evs = []"
proof (induction b i st arbitrary: r st' rule: printBufFrom.induct)
  case (1 b i st)
  show ?case
  proof (cases "i < length b")
    case False
    with "1.prems" show ?thesis by (simp add: printBufFrom.simps)
  next
    case True
    show ?thesis
    proof (cases "dumpRow b i [0..<16] ([], [])")
      case (Inl p)
      with True "1.prems" show ?thesis by (simp add: printBufFrom.simps)
    next
      case (Inr q)
      obtain hex str where q: "q = (hex, str)" by (cases q)
      from True Inr q "1.prems"
      have "printBufFrom b (i + 16) (emit (DumpLine i hex str) st) = (r, st')"
        by (simp add: printBufFrom.simps)
      from "1.IH" [OF True Inr q [symmetric] this] obtain evs where
        "trace st' = trace st @ DumpLine i hex str # evs" "list_all scanEvent evs" "readOffsets evs = []"
        by auto
      then show ?thesis by (intro exI [of _ "DumpLine i hex str # evs"]) simp
    qed
  qed
qed

lemma readState_trace:
  "\<exists>evs. trace (readState cfg i st) = trace st @ evs \<and> list_all scanEvent evs
     \<and> readOffsets evs = [wrap64 (i * blockSz cfg)]"
  by (simp add: readState_def)

lemma countedState_trace:
  "\<exists>evs. trace (countedState cfg i st) = trace st @ evs \<and> list_all scanEvent evs
     \<and> readOffsets evs = [wrap64 (i * blockSz cfg)]"
  by (simp add: countedState_def readState_def)

lemma verifyBlock_trace:
  assumes "verifyBlock e cfg i c st = (r, c', st')"
  shows "\<exists>evs. trace st' = trace st @ evs \<and> list_all scanEvent evs
     \<and> readOffsets evs = [wrap64 (i * blockSz cfg)]"
proof (cases "readFailed e cfg i st \<or> blockAt cfg st i = replicate (nat (blockSz cfg)) 0")
  case True
  with assms have "st' = emit (ReadFailed (wrap64 (i * blockSz cfg))) (readState cfg i st) \<or> st' = readState cfg i st"
    by (auto simp: verifyBlock_cases split: if_splits)
  then show ?thesis
    by (auto simp: readState_def)
next
  case False
  show ?thesis
  proof (cases "verifyBuf (blockAt cfg st i)")
    case (Inl p)
    with False assms have "st' = countedState cfg i st" by (auto simp: verifyBlock_cases)
    then show ?thesis using countedState_trace by simp
  next
    case (Inr ok)
    show ?thesis
    proof (cases ok)
      case True
      with Inr False assms have "st' = countedState cfg i st" by (auto simp: verifyBlock_cases)
      then show ?thesis using countedState_trace by simp
    next
      case nok: False
      with Inr False assms
      have pb: "printBufFrom (blockAt cfg st i) 0 (emit (DidNotVerify i) (countedState cfg i st)) = (r, st')"
        by (auto simp: verifyBlock_cases printBuf_def split: prod.splits)
      from printBufFrom_trace [OF pb] obtain evs where
        evs: "trace st' = trace (countedState cfg i st) @ DidNotVerify i # evs"
          "list_all scanEvent evs" "readOffsets evs = []"
        by auto
      from countedState_trace [of cfg i st] obtain evs0 where
        "trace (countedState cfg i st) = trace st @ evs0" "list_all scanEvent evs0"
        "readOffsets evs0 = [wrap64 (i * blockSz cfg)]" by blast
      with evs show ?thesis
        by (intro exI [of _ "evs0 @ DidNotVerify i # evs"]) (simp add: readOffsets_append)
    qed
  qed
qed

lemma verifyLoop_trace:
  assumes "verifyLoop e cfg tot i c st = (r, c', st')"
  shows "\<exists>evs. trace st' = trace st @ evs \<and> list_all scanEvent evs
     \<and> (r = None \<longrightarrow> readOffsets evs = map (\<lambda>j. wrap64 (j * blockSz cfg)) [i..tot - 1])"
  using assms
proof (induction e cfg tot i c st rule: verifyLoop.induct)
  case (1 e cfg tot i c st)
  show ?case
  proof (cases "i < tot")
    case False
    with "1.prems" show ?thesis by (simp add: verifyLoop.simps)
  next
    case True
    obtain r1 c1 st1 where vb: "verifyBlock e cfg i c st = (r1, c1, st1)"
      by (cases "verifyBlock e cfg i c st")
    from verifyBlock_trace [OF vb] obtain evs1 where
      t1: "trace st1 = trace st @ evs1" "list_all scanEvent evs1"
        "readOffsets evs1 = [wrap64 (i * blockSz cfg)]" by blast
    show ?thesis
    proof (cases r1)
      case (Some p)
      with True vb "1.prems" have "st' = st1" "r = Some p" by (simp_all add: verifyLoop.simps)
      with t1 show ?thesis by auto
    next
      case None
      with True vb "1.prems" have "verifyLoop e cfg tot (i + 1) c1 st1 = (r, c', st')"
        by (simp add: verifyLoop.simps)
      from "1.IH" [OF True vb [symmetric] _ _ this] None obtain evs2 where
        t2: "trace st' = trace st1 @ evs2" "list_all scanEvent evs2"
          "r = None \<longrightarrow> readOffsets evs2 = map (\<lambda>j. wrap64 (j * blockSz cfg)) [i + 1..tot - 1]"
        by auto
      have "[i..tot - 1] = i # [i + 1..tot - 1]" using True by (simp add: upto_rec1)
      with t1 t2 show ?thesis
        by (intro exI [of _ "evs1 @ evs2"]) (simp add: readOffsets_append)
    qed
  qed
qed

lemma blockAt_cong:
  assumes "fdata st' = fdata st"
  shows "blockAt cfg st' j = blockAt cfg st j"
  unfolding blockAt_def readBytes_cong [OF assms] ..

lemma readFailed_cong: "fsize st' = fsize st \<Longrightarrow> readFailed e cfg j st' = readFailed e cfg j st"
  by (simp add: readFailed_def)

lemma nonzeroBlocks_cong:
  assumes "fdata st' = fdata st"
  shows "nonzeroBlocks cfg st' i tot = nonzeroBlocks cfg st i tot"
  unfolding nonzeroBlocks_def blockAt_cong [OF assms] ..

lemma verifyLoop_good:
  assumes "\<forall>j. i \<le> j \<and> j < tot \<longrightarrow> \<not> readFailed e cfg j st \<and>
           (blockAt cfg st j = replicate (nat (blockSz cfg)) 0 \<or> verifyBuf (blockAt cfg st j) = Inr True)"
  shows "\<exists>st'. verifyLoop e cfg tot i c st = (None, c + int (card (nonzeroBlocks cfg st i tot)), st')"
  using assms
proof (induction e cfg tot i c st rule: verifyLoop.induct)
  case (1 e cfg tot i c st)
  show ?case
  proof (cases "i < tot")
    case False
    then have "nonzeroBlocks cfg st i tot = {}" by (auto simp: nonzeroBlocks_def)
    with False show ?thesis by (simp add: verifyLoop.simps)
  next
    case True
    define d :: int where "d = (if blockAt cfg st i \<noteq> replicate (nat (blockSz cfg)) 0 then 1 else 0)"
    from "1.prems" True
    have nf: "\<not> readFailed e cfg i st"
      and ok: "blockAt cfg st i = replicate (nat (blockSz cfg)) 0 \<or> verifyBuf (blockAt cfg st i) = Inr True"
      by simp_all
    have "\<exists>st1. verifyBlock e cfg i c st = (None, c + d, st1)"
    proof (cases "blockAt cfg st i = replicate (nat (blockSz cfg)) 0")
      case True
      with nf show ?thesis by (simp add: verifyBlock_cases d_def)
    next
      case False
      with ok have "verifyBuf (blockAt cfg st i) = Inr True" by simp
      with False nf show ?thesis by (simp add: verifyBlock_cases d_def)
    qed
    then obtain st1 where vb: "verifyBlock e cfg i c st = (None, c + d, st1)" by blast
    from verifyBlock_props [OF vb] have f1: "fdata st1 = fdata st" "fsize st1 = fsize st"
      by simp_all
    have "\<forall>j. i + 1 \<le> j \<and> j < tot \<longrightarrow> \<not> readFailed e cfg j st1 \<and>
           (blockAt cfg st1 j = replicate (nat (blockSz cfg)) 0 \<or> verifyBuf (blockAt cfg st1 j) = Inr True)"
      using "1.prems" by (simp add: readFailed_cong [OF f1(2)] blockAt_cong [OF f1(1)])
    from "1.IH" [OF True vb [symmetric] refl refl this]
    obtain st' where
      "verifyLoop e cfg tot (i + 1) (c + d) st1 = (None, c + d + int (card (nonzeroBlocks cfg st (i + 1) tot)), st')"
      by (auto simp: nonzeroBlocks_cong [OF f1(1)])
    moreover have "c + d + int (card (nonzeroBlocks cfg st (i + 1) tot)) = c + int (card (nonzeroBlocks cfg st i tot))"
      by (simp add: card_nonzeroBlocks_step [OF True] d_def)
    ultimately show ?thesis
      using True vb by (subst verifyLoop.simps) simp
  qed
qed

text \<open>A file whose non-zero blocks all verify: the scan ends, and reports their number.\<close>

lemma verifyPhase_good:
  assumes B: "0 < blockSz cfg"
    and "\<And>j. 0 \<le> j \<Longrightarrow> j < tot \<Longrightarrow> \<not> readFailed e cfg j st"
    and "\<And>j. 0 \<le> j \<Longrightarrow> j < tot \<Longrightarrow>
           blockAt cfg st j = replicate (nat (blockSz cfg)) 0 \<or> verifyBuf (blockAt cfg st j) = Inr True"
    and n: "int (card (nonzeroBlocks cfg st 0 tot)) = n"
  shows "\<exists>st'. verifyPhase e cfg tot st =
            (if n > numBlocks cfg then Fatal (VerifiedMore n (numBlocks cfg)) else Done, st')
          \<and> fdata st' = fdata st
          \<and> writeOffsets (trace st') = writeOffsets (trace st)
          \<and> verifiedCounts (trace st') = verifiedCounts (trace st) @ [n]
          \<and> readOffsets (trace st') = readOffsets (trace st) @ map (\<lambda>j. wrap64 (j * blockSz cfg)) [0..tot - 1]"
proof -
  define st1 where "st1 = emit (Println ''Verify the file'') st"
  have f1: "fdata st1 = fdata st" "fsize st1 = fsize st" by (simp_all add: st1_def)
  have "\<exists>st2. verifyLoop e cfg tot 0 0 st1 = (None, 0 + int (card (nonzeroBlocks cfg st1 0 tot)), st2)"
    using assms(2,3)
    by (intro verifyLoop_good) (simp add: readFailed_cong [OF f1(2)] blockAt_cong [OF f1(1)])
  then obtain st2 where vl: "verifyLoop e cfg tot 0 0 st1 = (None, n, st2)"
    using n by (auto simp: nonzeroBlocks_cong [OF f1(1)])
  from verifyLoop_count [OF vl] have f2: "fdata st2 = fdata st" using f1 by simp
  from verifyLoop_trace [OF vl] obtain evs where
    t2: "trace st2 = trace st1 @ evs" "list_all scanEvent evs"
      "readOffsets evs = map (\<lambda>j. wrap64 (j * blockSz cfg)) [0..tot - 1]" by auto
  from verifyLoop_counts [OF vl] have c2: "verifiedCounts (trace st2) = verifiedCounts (trace st)"
    by (simp add: st1_def verifiedCounts_append)
  have w2: "writeOffsets (trace st2) = writeOffsets (trace st)"
    using t2 by (simp add: st1_def writeOffsets_append scan_no_writes)
  have r2: "readOffsets (trace st2) = readOffsets (trace st) @ map (\<lambda>j. wrap64 (j * blockSz cfg)) [0..tot - 1]"
    using t2 by (simp add: st1_def readOffsets_append)
  show ?thesis
    using B vl f2 c2 w2 r2
    by (simp add: verifyPhase_def Let_def st1_def [symmetric] writeOffsets_append
        verifiedCounts_append readOffsets_append)
qed

lemma place_stream_cont:
  "mode cfg = ''stream'' \<Longrightarrow> streamBlocks st \<noteq> 0 \<Longrightarrow>
   place cfg tot i st =
     Some (Inr (st\<lparr>off := wrap64 (off st + blockSz cfg),
                    streamBlocks := wrap64 (streamBlocks st - 1)\<rparr>))"
  by (simp add: place_def)

lemma place_stream_new:
  assumes "mode cfg = ''stream''" "streamBlocks st = 0"
    and "minBlocks cfg < maxBlocks cfg" "0 \<le> minBlocks cfg" "maxBlocks cfg < 2 ^ 62"
    and "sb = minBlocks cfg + int (grnd st 0) mod (maxBlocks cfg - minBlocks cfg + 1)"
    and "pickStart (rnd st) sb tot = Some (Inr (s0, r'))"
  shows "place cfg tot i st =
     Some (Inr (st\<lparr>rnd := r', grnd := \<lambda>k. grnd st (Suc k),
                    off := wrap64 (s0 * blockSz cfg), streamBlocks := sb - 1\<rparr>))"
proof -
  let ?d = "maxBlocks cfg - minBlocks cfg"
  have d: "wrap64 (wrap64 ?d + 1) = ?d + 1" "0 < ?d + 1"
    using assms(3-5) by (simp_all add: wrap64_id)
  define r where "r = int (grnd st 0) mod (?d + 1)"
  have r: "0 \<le> r" "r < ?d + 1"
    unfolding r_def using d(2) by (rule pos_mod_sign, rule pos_mod_bound)
  have "sb = minBlocks cfg + r" by (simp add: assms(6) r_def)
  with r have sb: "minBlocks cfg \<le> sb" "sb \<le> maxBlocks cfg"
    by linarith+
  then have w: "wrap64 sb = sb" "wrap64 (sb - 1) = sb - 1"
    using assms(4,5) by (simp_all add: wrap64_id)
  show ?thesis
    using assms(1,2,7) d w
    by (simp add: place_def Int63n_def draw_def Let_def assms(6) [symmetric])
qed

lemma stream_run:
  assumes "mode cfg = ''stream''" "8 \<le> blockSz cfg" "blockSz cfg mod 4 = 0"
    and "\<forall>i. \<not> writeFails e i" "\<forall>i. \<not> syncFails e i"
    and "n = nat (numBlocks cfg - i)"
    and "int n \<le> streamBlocks st" "streamBlocks st < 2 ^ 63"
    and "off st = q * blockSz cfg" "0 \<le> q"
    and "(q + int n + 1) * blockSz cfg < 2 ^ 63" "(q + int n + 1) * blockSz cfg \<le> fsize st"
  shows "\<exists>st'. writeLoop e cfg tot i st = Some (Inr st')
     \<and> writeOffsets (trace st') = writeOffsets (trace st) @ map (\<lambda>t. (q + int t) * blockSz cfg) [1..<Suc n]
     \<and> fsize st' = fsize st
     \<and> (\<forall>j. 0 \<le> j \<and> j * blockSz cfg < 2 ^ 63 \<longrightarrow>
           (if q < j \<and> j \<le> q + int n
            then intact (blockAt cfg st' j) \<and> length (blockAt cfg st' j) = nat (blockSz cfg)
            else blockAt cfg st' j = blockAt cfg st j))"
  using assms(6-)
proof (induction n arbitrary: i st q)
  case 0
  then have "\<not> i < numBlocks cfg" by simp
  then show ?case by (auto simp: writeLoop.simps)
next
  case (Suc m)
  let ?B = "blockSz cfg"
  have B: "0 < ?B" using assms(2) by simp
  from Suc.prems(1) have i: "i < numBlocks cfg" and m: "m = nat (numBlocks cfg - (i + 1))"
    by simp_all
  from Suc.prems(2) have sb: "streamBlocks st \<noteq> 0" "0 \<le> streamBlocks st - 1" by simp_all
  define g' where "g' = (\<lambda>k. grnd st (k + nat ?B))"
  define b where "b = addChecksum (drawn (grnd st) (nat ?B))"
  have lb: "length b = nat ?B" and ib: "intact b"
    using assms(2) by (simp_all add: b_def length_addChecksum intact_addChecksum)
  have q1: "0 \<le> (q + 1) * ?B" "(q + 1) * ?B < 2 ^ 63" "(q + 1) * ?B + ?B \<le> fsize st"
  proof -
    show "0 \<le> (q + 1) * ?B" using B Suc.prems(5) by (simp add: zero_le_mult_iff)
    have "(q + 1) * ?B + ?B = (q + 2) * ?B" by (simp add: algebra_simps)
    also have "\<dots> \<le> (q + int (Suc m) + 1) * ?B" using B by (intro mult_right_mono) simp_all
    finally have le: "(q + 1) * ?B + ?B \<le> (q + int (Suc m) + 1) * ?B" .
    with Suc.prems(6,7) B show "(q + 1) * ?B < 2 ^ 63" "(q + 1) * ?B + ?B \<le> fsize st" by simp_all
  qed
  define st1 where "st1 = st\<lparr>grnd := g', off := (q + 1) * ?B, streamBlocks := streamBlocks st - 1\<rparr>"
  have w1: "wrap64 (q * ?B + ?B) = (q + 1) * ?B"
    using q1 by (simp add: wrap64_id algebra_simps)
  have w2: "wrap64 (streamBlocks st - 1) = streamBlocks st - 1"
    using sb Suc.prems(3) by (simp add: wrap64_id)
  have pl: "place cfg tot i (st\<lparr>grnd := g'\<rparr>) = Some (Inr st1)"
    using assms(1) sb(1) by (simp add: place_stream_cont Suc.prems(4) w1 w2 st1_def)
  define st2 where "st2 = afterWrite cfg i b st1"
  have wb: "writeBlock e cfg tot i st = Some (Inr st2)"
    unfolding st2_def b_def
    using assms(2,3) pl [unfolded g'_def] q1(1) assms(4,5)
    by (intro writeBlock_step) (simp_all add: st1_def)
  have st2: "off st2 = (q + 1) * ?B" "streamBlocks st2 = streamBlocks st - 1"
    "fsize st2 = fsize st" "fdata st2 = fdata (WriteAt b ((q + 1) * ?B) st1)"
    "writeOffsets (trace st2) = writeOffsets (trace st) @ [(q + 1) * ?B]"
    using q1(3) lb B by (simp_all add: st2_def st1_def)
  have "\<exists>st'. writeLoop e cfg tot (i + 1) st2 = Some (Inr st')
     \<and> writeOffsets (trace st') = writeOffsets (trace st2) @ map (\<lambda>t. (q + 1 + int t) * ?B) [1..<Suc m]
     \<and> fsize st' = fsize st2
     \<and> (\<forall>j. 0 \<le> j \<and> j * ?B < 2 ^ 63 \<longrightarrow>
           (if q + 1 < j \<and> j \<le> q + 1 + int m
            then intact (blockAt cfg st' j) \<and> length (blockAt cfg st' j) = nat ?B
            else blockAt cfg st' j = blockAt cfg st2 j))"
  proof (rule Suc.IH [OF m])
    show "int m \<le> streamBlocks st2" using Suc.prems(2) st2 by simp
    show "streamBlocks st2 < 2 ^ 63" using Suc.prems(3) st2 by simp
    show "off st2 = (q + 1) * ?B" using st2 by simp
    show "0 \<le> q + 1" using Suc.prems(5) by simp
    have "q + 1 + int m + 1 = q + int (Suc m) + 1" by simp
    then show "(q + 1 + int m + 1) * ?B < 2 ^ 63" "(q + 1 + int m + 1) * ?B \<le> fsize st2"
      using Suc.prems(6,7) st2(3) by simp_all
  qed
  then obtain st' where
    wl: "writeLoop e cfg tot (i + 1) st2 = Some (Inr st')"
    and ws: "writeOffsets (trace st') = writeOffsets (trace st2) @ map (\<lambda>t. (q + 1 + int t) * ?B) [1..<Suc m]"
    and fs: "fsize st' = fsize st2"
    and bl: "\<And>j. 0 \<le> j \<Longrightarrow> j * ?B < 2 ^ 63 \<Longrightarrow>
           (if q + 1 < j \<and> j \<le> q + 1 + int m
            then intact (blockAt cfg st' j) \<and> length (blockAt cfg st' j) = nat ?B
            else blockAt cfg st' j = blockAt cfg st2 j)"
    by blast
  have b2: "blockAt cfg st2 j = (if j = q + 1 then b else blockAt cfg st j)"
    if "0 \<le> j" "j * ?B < 2 ^ 63" for j
  proof -
    have "blockAt cfg st2 j = (if j = q + 1 then b else blockAt cfg st1 j)"
      using B st2(4) lb Suc.prems(5) that q1(2) by (intro blockAt_write) simp_all
    moreover have "blockAt cfg st1 j = blockAt cfg st j"
      by (rule blockAt_cong) (simp add: st1_def)
    ultimately show ?thesis by simp
  qed
  have run: "writeLoop e cfg tot i st = Some (Inr st')"
    using i wb wl by (subst writeLoop.simps) simp
  have offs: "writeOffsets (trace st') = writeOffsets (trace st) @ map (\<lambda>t. (q + int t) * ?B) [1..<Suc (Suc m)]"
  proof -
    have "[1..<Suc (Suc m)] = 1 # [Suc 1..<Suc (Suc m)]"
      by (rule upt_conv_Cons) simp
    also have "[Suc 1..<Suc (Suc m)] = map Suc [1..<Suc m]"
      by (simp only: map_Suc_upt)
    finally have "[1..<Suc (Suc m)] = 1 # map Suc [1..<Suc m]" .
    then have "map (\<lambda>t. (q + int t) * ?B) [1..<Suc (Suc m)]
        = (q + 1) * ?B # map (\<lambda>t. (q + 1 + int t) * ?B) [1..<Suc m]"
      by (simp add: o_def algebra_simps del: upt_Suc)
    with ws st2(5) show ?thesis by simp
  qed
  have blocks: "if q < j \<and> j \<le> q + int (Suc m)
            then intact (blockAt cfg st' j) \<and> length (blockAt cfg st' j) = nat ?B
            else blockAt cfg st' j = blockAt cfg st j"
    if "0 \<le> j" "j * ?B < 2 ^ 63" for j
  proof (cases "j = q + 1")
    case True
    with bl [OF that] b2 [OF that] ib lb show ?thesis by simp
  next
    case False
    with bl [OF that] b2 [OF that] show ?thesis by (auto split: if_splits)
  qed
  from run offs fs st2(3) blocks show ?case by auto
qed

lemma blockAt_zero: "fdata st = (\<lambda>p. 0) \<Longrightarrow> blockAt cfg st j = replicate (nat (blockSz cfg)) 0"
  by (simp add: blockAt_def readBytes_zero)

lemma stream_single_run:
  assumes md: "mode cfg = ''stream''"
    and B: "8 \<le> blockSz cfg" "blockSz cfg mod 4 = 0" "blockSz cfg < fileSz cfg" "fileSz cfg < 2 ^ 63"
    and q: "quiet e"
    and mm: "0 \<le> minBlocks cfg" "minBlocks cfg < maxBlocks cfg" "maxBlocks cfg < 2 ^ 62"
    and N: "1 \<le> numBlocks cfg" "numBlocks cfg \<le> minBlocks cfg"
    and tot: "tot = fileSz cfg div blockSz cfg"
    and sb: "sb = minBlocks cfg + int (globalRand e (nat (blockSz cfg))) mod (maxBlocks cfg - minBlocks cfg + 1)"
    and ps: "pickStart (NewSource e (seed cfg)) sb tot = Some (Inr (s0, r'))"
  shows "\<exists>st. main e cfg = Some (Done, st)
     \<and> writeOffsets (trace st) = map (\<lambda>t. (s0 + int t) * blockSz cfg) [0..<nat (numBlocks cfg)]
     \<and> verifiedCounts (trace st) = [numBlocks cfg]
     \<and> (\<forall>j. 0 \<le> j \<and> j < tot \<longrightarrow>
           (blockAt cfg st j \<noteq> replicate (nat (blockSz cfg)) 0 \<longleftrightarrow> s0 \<le> j \<and> j < s0 + numBlocks cfg))
     \<and> blockAt cfg st s0 = addChecksum (drawn (globalRand e) (nat (blockSz cfg)))
     \<and> 0 \<le> s0 \<and> s0 + numBlocks cfg \<le> tot"
proof -
  let ?B = "blockSz cfg" and ?F = "fileSz cfg" and ?N = "numBlocks cfg"
  have Bpos: "0 < ?B" using B(1) by simp
  have tot': "wrap64 (tdiv ?F ?B) = tot" using Bpos B tot by (simp add: totalBlocks_eq)
  have totB: "tot * ?B \<le> ?F"
  proof -
    have "?F div ?B * ?B + ?F mod ?B = ?F" by simp
    moreover have "0 \<le> ?F mod ?B" using Bpos by simp
    ultimately show ?thesis unfolding tot by linarith
  qed
  have tot60: "tot < 2 ^ 60"
  proof -
    have "tot * 8 \<le> tot * ?B" using B(1) pickStart_Inr [OF ps] by (intro mult_left_mono) simp_all
    with totB B(4) show ?thesis by simp
  qed
  define r where "r = int (globalRand e (nat ?B)) mod (maxBlocks cfg - minBlocks cfg + 1)"
  have "0 < maxBlocks cfg - minBlocks cfg + 1" using mm(2) by simp
  then have r: "0 \<le> r" "r < maxBlocks cfg - minBlocks cfg + 1"
    unfolding r_def by (rule pos_mod_sign, rule pos_mod_bound)
  have sbr: "sb = minBlocks cfg + r" by (simp add: sb r_def)
  with r have sbb: "minBlocks cfg \<le> sb" "sb \<le> maxBlocks cfg" by linarith+
  from pickStart_Inr [OF ps] have s0: "0 \<le> s0" "s0 < tot" and fit: "wrap64 (s0 + sb) \<le> tot"
    by simp_all
  have "wrap64 (s0 + sb) = s0 + sb"
    using s0 tot60 sbb mm by (intro wrap64_id) simp_all
  with fit have fit': "s0 + sb \<le> tot" by simp
  with sbb N have sN: "s0 + ?N \<le> tot" by simp
  have inF: "(j + 1) * ?B \<le> ?F" if "j < tot" for j
  proof -
    have "(j + 1) * ?B \<le> tot * ?B" using that Bpos by (intro mult_right_mono) simp_all
    with totB show ?thesis by simp
  qed
  have inR: "j * ?B < 2 ^ 63" "0 \<le> j * ?B" "wrap64 (j * ?B) = j * ?B" if "0 \<le> j" "j < tot" for j
  proof -
    have "j * ?B < (j + 1) * ?B" using Bpos by (simp add: algebra_simps)
    with inF [OF that(2)] B(4) show 1: "j * ?B < 2 ^ 63" by simp
    show 2: "0 \<le> j * ?B" using that(1) Bpos by (simp add: zero_le_mult_iff)
    from 1 2 show "wrap64 (j * ?B) = j * ?B" by (simp add: wrap64_id)
  qed
  text \<open>The first iteration starts the stream.\<close>
  define st0 where "st0 = beforeWrites e cfg"
  define g' where "g' = (\<lambda>k. globalRand e (k + nat ?B))"
  define b0 where "b0 = addChecksum (drawn (globalRand e) (nat ?B))"
  have lb0: "length b0 = nat ?B" and ib0: "intact b0"
    using B(1) by (simp_all add: b0_def length_addChecksum intact_addChecksum)
  define st1 where "st1 = st0\<lparr>grnd := g'\<rparr>\<lparr>rnd := r', grnd := \<lambda>k. g' (Suc k),
                    off := wrap64 (s0 * ?B), streamBlocks := sb - 1\<rparr>"
  have "place cfg tot 0 (st0\<lparr>grnd := g'\<rparr>) =
      Some (Inr ((st0\<lparr>grnd := g'\<rparr>)\<lparr>rnd := r', grnd := \<lambda>k. grnd (st0\<lparr>grnd := g'\<rparr>) (Suc k),
                    off := wrap64 (s0 * ?B), streamBlocks := sb - 1\<rparr>))"
  proof (rule place_stream_new [OF md _ mm(2,1,3)])
    show "streamBlocks (st0\<lparr>grnd := g'\<rparr>) = 0" by (simp add: st0_def)
    show "sb = minBlocks cfg + int (grnd (st0\<lparr>grnd := g'\<rparr>) 0) mod (maxBlocks cfg - minBlocks cfg + 1)"
      by (simp add: sb g'_def)
    show "pickStart (rnd (st0\<lparr>grnd := g'\<rparr>)) sb tot = Some (Inr (s0, r'))"
      using ps by (simp add: st0_def)
  qed
  then have pl: "place cfg tot 0 (st0\<lparr>grnd := g'\<rparr>) = Some (Inr st1)"
    by (simp add: st1_def)
  have o1: "off st1 = s0 * ?B" "streamBlocks st1 = sb - 1" "fdata st1 = (\<lambda>p. 0)" "fsize st1 = ?F"
    "writeOffsets (trace st1) = []" "verifiedCounts (trace st1) = []"
    using inR(3) [OF s0] by (simp_all add: st1_def st0_def)
  define st2 where "st2 = afterWrite cfg 0 b0 st1"
  have "writeBlock e cfg tot 0 st0 =
      Some (Inr (afterWrite cfg 0 (addChecksum (drawn (grnd st0) (nat ?B))) st1))"
  proof (rule writeBlock_step [OF B(1,2)])
    show "place cfg tot 0 (st0\<lparr>grnd := \<lambda>k. grnd st0 (k + nat ?B)\<rparr>) = Some (Inr st1)"
      using pl by (simp add: g'_def st0_def)
    show "0 \<le> off st1" using inR(2) [OF s0] o1(1) by simp
    show "\<not> writeFails e 0" "\<not> syncFails e 0" using q by (simp_all add: quiet_def)
  qed
  then have wb: "writeBlock e cfg tot 0 st0 = Some (Inr st2)"
    by (simp add: st2_def b0_def st0_def)
  have o2: "off st2 = s0 * ?B" "streamBlocks st2 = sb - 1" "fsize st2 = ?F"
    "fdata st2 = fdata (WriteAt b0 (s0 * ?B) st1)" "writeOffsets (trace st2) = [s0 * ?B]"
    using o1 lb0 inF [OF s0(2)] Bpos by (simp_all add: st2_def algebra_simps)
  text \<open>The other iterations continue it.\<close>
  define n where "n = nat (?N - 1)"
  have n: "int n = ?N - 1" using N by (simp add: n_def)
  have top: "(s0 + int n + 1) * ?B \<le> ?F"
    using inF [of "s0 + int n"] sN n by simp
  have "\<exists>st'. writeLoop e cfg tot 1 st2 = Some (Inr st')
     \<and> writeOffsets (trace st') = writeOffsets (trace st2) @ map (\<lambda>t. (s0 + int t) * ?B) [1..<Suc n]
     \<and> fsize st' = fsize st2
     \<and> (\<forall>j. 0 \<le> j \<and> j * ?B < 2 ^ 63 \<longrightarrow>
           (if s0 < j \<and> j \<le> s0 + int n
            then intact (blockAt cfg st' j) \<and> length (blockAt cfg st' j) = nat ?B
            else blockAt cfg st' j = blockAt cfg st2 j))"
  proof (rule stream_run [OF md B(1,2) _ _ n_def])
    show "\<forall>i. \<not> writeFails e i" "\<forall>i. \<not> syncFails e i" using q by (simp_all add: quiet_def)
    show "int n \<le> streamBlocks st2" using n o2 sbb N by simp
    show "streamBlocks st2 < 2 ^ 63" using o2 sbb mm by simp
    show "off st2 = s0 * ?B" using o2 by simp
    show "0 \<le> s0" using s0 by simp
    show "(s0 + int n + 1) * ?B < 2 ^ 63" using top B(4) by simp
    show "(s0 + int n + 1) * ?B \<le> fsize st2" using top o2 by simp
  qed
  then obtain st3 where
    wl: "writeLoop e cfg tot 1 st2 = Some (Inr st3)"
    and ws: "writeOffsets (trace st3) = s0 * ?B # map (\<lambda>t. (s0 + int t) * ?B) [1..<Suc n]"
    and fs: "fsize st3 = ?F"
    and bl: "\<And>j. 0 \<le> j \<Longrightarrow> j * ?B < 2 ^ 63 \<Longrightarrow>
           (if s0 < j \<and> j \<le> s0 + int n
            then intact (blockAt cfg st3 j) \<and> length (blockAt cfg st3 j) = nat ?B
            else blockAt cfg st3 j = blockAt cfg st2 j)"
    using o2 by auto
  have loop: "writeLoop e cfg tot 0 st0 = Some (Inr st3)"
    using N wb wl by (subst writeLoop.simps) simp
  have c3: "verifiedCounts (trace st3) = []"
    using writeLoop_counts [OF loop] by (simp add: st0_def)
  have b2: "blockAt cfg st2 j = (if j = s0 then b0 else replicate (nat ?B) 0)"
    if "0 \<le> j" "j < tot" for j
  proof -
    have "blockAt cfg st2 j = (if j = s0 then b0 else blockAt cfg st1 j)"
      using Bpos o2(4) lb0 s0(1) that(1) inR(1) [OF s0] inR(1) [OF that]
      by (intro blockAt_write) simp_all
    then show ?thesis using o1(3) by (simp add: blockAt_zero)
  qed
  have b3: "if s0 \<le> j \<and> j < s0 + ?N
            then intact (blockAt cfg st3 j) \<and> length (blockAt cfg st3 j) = nat ?B
            else blockAt cfg st3 j = replicate (nat ?B) 0"
    if "0 \<le> j" "j < tot" for j
    using bl [OF that(1) inR(1) [OF that]] b2 [OF that] ib0 lb0 n
    by (auto split: if_splits)
  have nz: "blockAt cfg st3 j \<noteq> replicate (nat ?B) 0 \<longleftrightarrow> s0 \<le> j \<and> j < s0 + ?N"
    if "0 \<le> j" "j < tot" for j
    using b3 [OF that] by (auto simp: intact_def split: if_splits)
  text \<open>The scan finds these blocks and nothing else.\<close>
  have nzset: "nonzeroBlocks cfg st3 0 tot = {s0..<s0 + ?N}"
  proof (rule set_eqI)
    fix j
    show "j \<in> nonzeroBlocks cfg st3 0 tot \<longleftrightarrow> j \<in> {s0..<s0 + ?N}"
    proof (cases "0 \<le> j \<and> j < tot")
      case True
      then show ?thesis using nz [of j] by (simp add: nonzeroBlocks_def)
    next
      case False
      then show ?thesis using s0 sN by (auto simp: nonzeroBlocks_def)
    qed
  qed
  have card: "int (card (nonzeroBlocks cfg st3 0 tot)) = ?N"
    using N by (simp add: nzset)
  have "\<exists>st'. verifyPhase e cfg tot st3 =
            (if ?N > numBlocks cfg then Fatal (VerifiedMore ?N (numBlocks cfg)) else Done, st')
          \<and> fdata st' = fdata st3
          \<and> writeOffsets (trace st') = writeOffsets (trace st3)
          \<and> verifiedCounts (trace st') = verifiedCounts (trace st3) @ [?N]
          \<and> readOffsets (trace st') = readOffsets (trace st3) @ map (\<lambda>j. wrap64 (j * ?B)) [0..tot - 1]"
  proof (rule verifyPhase_good [OF Bpos _ _ card])
    fix j :: int assume j: "0 \<le> j" "j < tot"
    show "\<not> readFailed e cfg j st3"
      using q inR [OF j] inF [OF j(2)] fs Bpos by (simp add: readFailed_def quiet_def algebra_simps)
    show "blockAt cfg st3 j = replicate (nat ?B) 0 \<or> verifyBuf (blockAt cfg st3 j) = Inr True"
      using b3 [OF j] by (auto simp: intact_def split: if_splits)
  qed
  then obtain st4 where
    vp: "verifyPhase e cfg tot st3 = (Done, st4)"
    and f4: "fdata st4 = fdata st3"
    and w4: "writeOffsets (trace st4) = writeOffsets (trace st3)"
    and c4: "verifiedCounts (trace st4) = [?N]"
    using c3 by auto
  have run: "main e cfg = Some (Done, st4)"
    using md B(1,3) Bpos mm(2) q loop vp
    by (simp add: main_cases tot' quiet_def st0_def [symmetric])
  have offs: "writeOffsets (trace st4) = map (\<lambda>t. (s0 + int t) * ?B) [0..<nat ?N]"
  proof -
    have "nat ?N = Suc n" using N by (simp add: n_def)
    moreover have "[0..<Suc n] = 0 # [1..<Suc n]" by (simp add: upt_rec [of 0])
    ultimately show ?thesis using w4 ws by simp
  qed
  have blocks: "\<forall>j. 0 \<le> j \<and> j < tot \<longrightarrow>
           (blockAt cfg st4 j \<noteq> replicate (nat ?B) 0 \<longleftrightarrow> s0 \<le> j \<and> j < s0 + ?N)"
    using nz by (simp add: blockAt_cong [OF f4])
  have first: "blockAt cfg st4 s0 = addChecksum (drawn (globalRand e) (nat ?B))"
    using bl [OF s0(1) inR(1) [OF s0]] b2 [OF s0]
    by (simp add: blockAt_cong [OF f4] b0_def)
  from run offs c4 blocks first s0 sN show ?thesis by blast
qed

lemma writeBlock_reads:
  assumes "writeBlock e cfg tot i st = Some (Inr st')"
  shows "readOffsets (trace st') = readOffsets (trace st)"
proof -
  from assms obtain b g' st1 where
    pl: "place cfg tot i (st\<lparr>grnd := g'\<rparr>) = Some (Inr st1)"
    and st': "st' = afterWrite cfg i b st1"
    by (auto simp: writeBlock_def afterWrite_def Let_def split: sum.splits option.splits if_splits)
  from place_trace [OF pl] show ?thesis by (simp add: st')
qed

lemma writeLoop_reads:
  assumes "writeLoop e cfg tot i st = Some (Inr st')"
  shows "readOffsets (trace st') = readOffsets (trace st)"
  using assms
proof (induction e cfg tot i st rule: writeLoop.induct)
  case (1 e cfg tot i st)
  show ?case
  proof (cases "i < numBlocks cfg")
    case False
    with "1.prems" show ?thesis by (simp add: writeLoop.simps)
  next
    case True
    with "1.prems" obtain st1 where
      wb: "writeBlock e cfg tot i st = Some (Inr st1)"
      and rest: "writeLoop e cfg tot (i + 1) st1 = Some (Inr st')"
      by (subst (asm) writeLoop.simps) (auto split: option.splits sum.splits)
    from "1.IH" [OF True wb refl rest] writeBlock_reads [OF wb] show ?thesis by simp
  qed
qed

lemma writeBlock_Inl: "writeBlock e cfg tot i st = Some (Inl (x, st')) \<Longrightarrow> x \<noteq> Done"
  by (auto simp: writeBlock_def Let_def split: sum.splits option.splits if_splits prod.splits)

lemma writeLoop_Inl: "writeLoop e cfg tot i st = Some (Inl (x, st')) \<Longrightarrow> x \<noteq> Done"
proof (induction e cfg tot i st rule: writeLoop.induct)
  case (1 e cfg tot i st)
  show ?case
  proof (cases "i < numBlocks cfg")
    case False
    with "1.prems" show ?thesis by (simp add: writeLoop.simps)
  next
    case True
    show ?thesis
    proof (cases "writeBlock e cfg tot i st")
      case None
      with True "1.prems" show ?thesis by (simp add: writeLoop.simps)
    next
      case (Some r1)
      show ?thesis
      proof (cases r1)
        case (Inl y)
        with Some True "1.prems" have "writeBlock e cfg tot i st = Some (Inl (x, st'))"
          by (simp add: writeLoop.simps)
        then show ?thesis by (rule writeBlock_Inl)
      next
        case (Inr st1)
        with Some True "1.prems" have "writeLoop e cfg tot (i + 1) st1 = Some (Inl (x, st'))"
          by (simp add: writeLoop.simps)
        from "1.IH" [OF True Some Inr this] show ?thesis .
      qed
    qed
  qed
qed

text \<open>A run that ends normally has read the blocks that lie wholly within the file.\<close>

lemma main_reads:
  assumes run: "main e cfg = Some (Done, st)" and F: "fileSz cfg < 2 ^ 63"
  shows "0 < blockSz cfg \<and> blockSz cfg < fileSz cfg
       \<and> readOffsets (trace st) = map (\<lambda>j. j * blockSz cfg) [0..fileSz cfg div blockSz cfg - 1]"
proof -
  let ?B = "blockSz cfg" and ?F = "fileSz cfg"
  define tot where "tot = wrap64 (tdiv ?F ?B)"
  from run have B0: "?B \<noteq> 0" "?B < ?F"
    by (auto simp: main_cases split: if_splits)
  from run obtain st4 where wl: "writeLoop e cfg tot 0 (beforeWrites e cfg) = Some (Inr st4)"
    and vp: "verifyPhase e cfg tot st4 = (Done, st)"
    by (auto simp: main_cases tot_def split: if_splits option.splits sum.splits
        dest: writeLoop_Inl)
  from vp have Bpos: "0 < ?B" using B0
    by (auto simp: verifyPhase_def Let_def split: if_splits)
  have tot: "tot = ?F div ?B" unfolding tot_def using Bpos B0(2) F by (rule totalBlocks_eq)
  define st1 where "st1 = emit (Println ''Verify the file'') st4"
  from vp Bpos obtain c st2 where vl: "verifyLoop e cfg tot 0 0 st1 = (None, c, st2)"
    and st: "st = emit (Verified c) st2"
    by (auto simp: verifyPhase_def Let_def st1_def split: prod.splits option.splits if_splits)
  from verifyLoop_trace [OF vl] obtain evs where
    t2: "trace st2 = trace st1 @ evs" "readOffsets evs = map (\<lambda>j. wrap64 (j * ?B)) [0..tot - 1]"
    by auto
  have "map (\<lambda>j. wrap64 (j * ?B)) [0..tot - 1] = map (\<lambda>j. j * ?B) [0..tot - 1]"
  proof (rule map_cong [OF refl])
    fix j assume "j \<in> set [0..tot - 1]"
    then have j: "0 \<le> j" "j < ?F div ?B" by (simp_all add: tot)
    from block_in_file [OF Bpos j] F Bpos show "wrap64 (j * ?B) = j * ?B"
      by (intro wrap64_id) simp_all
  qed
  with t2 writeLoop_reads [OF wl] have "readOffsets (trace st) = map (\<lambda>j. j * ?B) [0..tot - 1]"
    by (simp add: st st1_def readOffsets_append)
  with Bpos B0 tot show ?thesis by simp
qed

lemma whole_block_offsets:
  fixes B F :: int
  assumes "0 < B"
  shows "pos \<in> set (map (\<lambda>j. j * B) [0..F div B - 1]) \<longleftrightarrow> 0 \<le> pos \<and> B dvd pos \<and> pos + B \<le> F"
proof
  assume "pos \<in> set (map (\<lambda>j. j * B) [0..F div B - 1])"
  then have "pos \<in> (\<lambda>j. j * B) ` {0..F div B - 1}" by simp
  then obtain j where "pos = j * B" "j \<in> {0..F div B - 1}" by (rule imageE)
  then have j: "pos = j * B" "0 \<le> j" "j < F div B" by simp_all
  from block_in_file [OF assms j(2,3)] j(1) show "0 \<le> pos \<and> B dvd pos \<and> pos + B \<le> F"
    by simp
next
  assume a: "0 \<le> pos \<and> B dvd pos \<and> pos + B \<le> F"
  then obtain j where j: "pos = j * B" by (auto simp: dvd_def mult.commute)
  with a assms have "0 \<le> j" by (simp add: zero_le_mult_iff)
  moreover have "j < F div B"
  proof -
    have "(j + 1) * B \<le> F" using a j by (simp add: algebra_simps)
    then have "(j + 1) * B div B \<le> F div B" using assms by (rule zdiv_mono1)
    then have "j + 1 \<le> F div B" using assms by simp
    then show ?thesis by simp
  qed
  ultimately show "pos \<in> set (map (\<lambda>j. j * B) [0..F div B - 1])"
    using j by auto
qed

lemma dumpRow_panics:
  "\<exists>j \<in> set js. length b \<le> i + j \<Longrightarrow> dumpRow b i js acc = Inl IndexOutOfRange"
proof (induction js arbitrary: acc)
  case Nil
  then show ?case by simp
next
  case (Cons j js)
  obtain hex str where acc: "acc = (hex, str)" by (cases acc)
  show ?case
  proof (cases "i + j < length b")
    case True
    with Cons.prems have "\<exists>j \<in> set js. length b \<le> i + j" by auto
    from Cons.IH [OF this] True show ?thesis by (simp add: acc)
  next
    case False
    then show ?thesis by (simp add: acc)
  qed
qed

lemma dumpRow_ok:
  "\<forall>j \<in> set js. i + j < length b \<Longrightarrow> \<exists>r. dumpRow b i js acc = Inr r"
proof (induction js arbitrary: acc)
  case Nil
  then show ?case by simp
next
  case (Cons j js)
  obtain hex str where acc: "acc = (hex, str)" by (cases acc)
  from Cons.prems have "\<forall>j \<in> set js. i + j < length b" "i + j < length b" by simp_all
  from Cons.IH [OF this(1)] this(2) show ?case by (simp add: acc)
qed

text \<open>\<open>printBuf\<close> panics on every buffer whose length is not a multiple of 16.\<close>

lemma printBufFrom_panics:
  "i mod 16 = 0 \<Longrightarrow> i \<le> length b \<Longrightarrow> length b mod 16 \<noteq> 0 \<Longrightarrow>
   \<exists>st'. printBufFrom b i st = (Some IndexOutOfRange, st')"
proof (induction b i st rule: printBufFrom.induct)
  case (1 b i st)
  from "1.prems" have lt: "i < length b" by (cases "i = length b") auto
  show ?case
  proof (cases "i + 16 \<le> length b")
    case True
    then have "\<forall>j \<in> set [0..<16]. i + j < length b" by auto
    from dumpRow_ok [OF this] obtain q where row: "dumpRow b i [0..<16] ([], []) = Inr q"
      by blast
    obtain hex str where q: "q = (hex, str)" by (cases q)
    have "\<exists>st'. printBufFrom b (i + 16) (emit (DumpLine i hex str) st) = (Some IndexOutOfRange, st')"
      using lt row q [symmetric] _ True "1.prems"(3)
    proof (rule "1.IH")
      show "(i + 16) mod 16 = 0" using "1.prems"(1) by simp
    qed
    with lt row q show ?thesis by (subst printBufFrom.simps) simp
  next
    case False
    then have "\<exists>j \<in> set [0..<16]. length b \<le> i + j" by (auto intro: bexI [of _ 15])
    from dumpRow_panics [OF this] lt show ?thesis
      by (subst printBufFrom.simps) simp
  qed
qed

lemma printBuf_panics:
  "length b mod 16 \<noteq> 0 \<Longrightarrow> \<exists>st'. printBuf b st = (Some IndexOutOfRange, st')"
  unfolding printBuf_def by (rule printBufFrom_panics) simp_all

lemma length_blockAt [simp]: "length (blockAt cfg st j) = nat (blockSz cfg)"
  by (simp add: blockAt_def readBytes_def)

section \<open>Example runs\<close>

lemma quiet_quietEnv [simp]: "quiet (quietEnv r g)"
  by (simp add: quiet_def quietEnv_def)

lemma quietEnv_simps [simp]:
  "NewSource (quietEnv r g) sd = r" "globalRand (quietEnv r g) = g"
  "createFails (quietEnv r g) = False" "ftruncateFails (quietEnv r g) = False"
  by (simp_all add: quietEnv_def)

lemma streamCfg_simps [simp]:
  "blockSz (streamCfg bs fs mn mx) = bs" "numBlocks (streamCfg bs fs mn mx) = 5"
  "mode (streamCfg bs fs mn mx) = ''stream''" "minBlocks (streamCfg bs fs mn mx) = mn"
  "maxBlocks (streamCfg bs fs mn mx) = mx" "fileSz (streamCfg bs fs mn mx) = fs"
  "fileName (streamCfg bs fs mn mx) = ''disk.img''" "verbose (streamCfg bs fs mn mx) = False"
  "syncBlocks (streamCfg bs fs mn mx) = 0" "seed (streamCfg bs fs mn mx) = 42"
  by (simp_all add: streamCfg_def)

text \<open>The start-index loop on the generator that returns 5, 4, 3, ...\<close>

lemma start_of_8: "pickStart (downTape 5) 5 8 = Some (Inr (3, \<lambda>k. 5 - Suc (Suc (Suc k))))"
  apply (subst pickStart.simps, simp add: Int63n_def draw_def downTape_def wrap64_def)
  apply (subst pickStart.simps, simp add: Int63n_def draw_def wrap64_def)
  apply (subst pickStart.simps, simp add: Int63n_def draw_def wrap64_def)
  done

lemma start_of_12: "pickStart (downTape 5) 5 12 = Some (Inr (5, \<lambda>k. 5 - Suc k))"
  by (subst pickStart.simps) (simp add: Int63n_def draw_def downTape_def wrap64_def)

lemma example_run_64:
  "\<exists>st. main (quietEnv (downTape 5) (constTape v)) (streamCfg 8 64 5 6) = Some (Done, st)
     \<and> writeOffsets (trace st) = [24, 32, 40, 48, 56]
     \<and> verifiedCounts (trace st) = [5]
     \<and> blockAt (streamCfg 8 64 5 6) st 3 = addChecksum (drawn (constTape v) 8)"
  if "even v"
proof -
  have sb: "(5::int) = minBlocks (streamCfg 8 64 5 6) +
      int (globalRand (quietEnv (downTape 5) (constTape v)) (nat (blockSz (streamCfg 8 64 5 6))))
        mod (maxBlocks (streamCfg 8 64 5 6) - minBlocks (streamCfg 8 64 5 6) + 1)"
    using that by (simp add: constTape_def)
  have "\<exists>st. main (quietEnv (downTape 5) (constTape v)) (streamCfg 8 64 5 6) = Some (Done, st)
     \<and> writeOffsets (trace st) = map (\<lambda>t. (3 + int t) * blockSz (streamCfg 8 64 5 6)) [0..<nat (numBlocks (streamCfg 8 64 5 6))]
     \<and> verifiedCounts (trace st) = [numBlocks (streamCfg 8 64 5 6)]
     \<and> (\<forall>j. 0 \<le> j \<and> j < 8 \<longrightarrow>
           (blockAt (streamCfg 8 64 5 6) st j \<noteq> replicate (nat (blockSz (streamCfg 8 64 5 6))) 0 \<longleftrightarrow> 3 \<le> j \<and> j < 3 + numBlocks (streamCfg 8 64 5 6)))
     \<and> blockAt (streamCfg 8 64 5 6) st 3 = addChecksum (drawn (globalRand (quietEnv (downTape 5) (constTape v))) (nat (blockSz (streamCfg 8 64 5 6))))
     \<and> 0 \<le> (3::int) \<and> 3 + numBlocks (streamCfg 8 64 5 6) \<le> 8"
  proof (rule stream_single_run [OF _ _ _ _ _ _ _ _ _ _ _ _ sb])
    show "pickStart (NewSource (quietEnv (downTape 5) (constTape v)) (seed (streamCfg 8 64 5 6))) 5 8
        = Some (Inr (3, \<lambda>k. 5 - Suc (Suc (Suc k))))"
      by (simp add: start_of_8)
  qed simp_all
  then show ?thesis
    by (auto simp: upt_rec numeral_eq_Suc)
qed

lemma example_run_100:
  "\<exists>st. main (quietEnv (downTape 5) (constTape 0)) (streamCfg 8 100 5 6) = Some (Done, st)"
proof -
  have sb: "(5::int) = minBlocks (streamCfg 8 100 5 6) +
      int (globalRand (quietEnv (downTape 5) (constTape 0)) (nat (blockSz (streamCfg 8 100 5 6))))
        mod (maxBlocks (streamCfg 8 100 5 6) - minBlocks (streamCfg 8 100 5 6) + 1)"
    by (simp add: constTape_def)
  have tot: "(12::int) = fileSz (streamCfg 8 100 5 6) div blockSz (streamCfg 8 100 5 6)"
    by simp
  have "pickStart (NewSource (quietEnv (downTape 5) (constTape 0)) (seed (streamCfg 8 100 5 6))) 5 12
        = Some (Inr (5, \<lambda>k. 5 - Suc k))"
    by (simp add: start_of_12)
  from stream_single_run [OF _ _ _ _ _ _ _ _ _ _ _ tot sb this]
  show ?thesis by simp blast
qed

section \<open>The claims about the codec\<close>

text \<open>
  Claim C1.  For a block size \<open>n\<close> of at least 8 that is a multiple of 4 and a payload of
  \<open>n - 4\<close> bytes, adding the checksum to a buffer that holds the payload (whatever its
  last four bytes were) gives the payload followed by the little-endian Adler-32 checksum
  of the payload, and \<open>verifyBuf\<close> reports a match on that block.  \<open>fillBuf\<close> returns such
  a block for every state of the generator.
\<close>

theorem encode_then_verify_matches:
  assumes "8 \<le> n" and "n mod 4 = 0" and "length payload = nat (n - 4)" and "length t = 4"
  shows "addChecksum (payload @ t) = payload @ PutUint32 (Checksum payload)
       \<and> verifyBuf (payload @ PutUint32 (Checksum payload)) = Inr True
       \<and> (\<exists>b s'. fillBuf s n = Inr (b, s') \<and> length b = nat n \<and> verifyBuf b = Inr True)"
proof -
  have "addChecksum (payload @ t) = payload @ PutUint32 (Checksum payload)"
    using assms(4) by (simp add: addChecksum_eq)
  moreover have "verifyBuf (payload @ PutUint32 (Checksum payload)) = Inr True"
    by (simp add: verifyBuf_append length_PutUint32 Uint32_PutUint32)
  moreover have "\<exists>b s'. fillBuf s n = Inr (b, s') \<and> length b = nat n \<and> verifyBuf b = Inr True"
  proof -
    from fillBuf_ok [OF assms(1,2)] obtain b0 s' where
      f: "fillBuf s n = Inr (addChecksum b0, s')" and l: "length b0 = nat n" by blast
    from l assms(1) have "4 \<le> length b0" by simp
    then show ?thesis using f l by (auto simp: verifyBuf_addChecksum length_addChecksum)
  qed
  ultimately show ?thesis by blast
qed

theorem encode_then_verify_matches_witness:
  "addChecksum ([1, 2, 3, 4] @ [9, 9, 9, 9]) = [1, 2, 3, 4] @ PutUint32 (Checksum [1, 2, 3, 4])
   \<and> verifyBuf ([1, 2, 3, 4] @ PutUint32 (Checksum [1, 2, 3, 4])) = Inr True
   \<and> (\<exists>b s'. fillBuf (\<lambda>k. 3 * k + 1) 8 = Inr (b, s') \<and> length b = nat 8 \<and> verifyBuf b = Inr True)"
  using encode_then_verify_matches [of 8 "[1, 2, 3, 4]" "[9, 9, 9, 9]" "\<lambda>k. 3 * k + 1"]
  by simp

text \<open>
  Claim C3.  Take an encoded block: a payload of \<open>n - 4\<close> bytes followed by its checksum.
  Flipping bit \<open>k\<close> of the payload byte at position \<open>i\<close>, for any position in the payload
  and any of the eight bits, makes \<open>verifyBuf\<close> report a mismatch.
\<close>

theorem payload_bit_flip_detected:
  assumes "8 \<le> n" and "n mod 4 = 0" and "length payload = nat (n - 4)"
    and "i < length payload" and "k < 8"
  shows "verifyBuf ((payload @ PutUint32 (Checksum payload))
           [i := flip_bit k ((payload @ PutUint32 (Checksum payload)) ! i)]) = Inr False"
proof -
  let ?t = "PutUint32 (Checksum payload)"
  have "(payload @ ?t)[i := flip_bit k ((payload @ ?t) ! i)]
         = payload[i := flip_bit k (payload ! i)] @ ?t"
    using assms(4) by (simp add: list_update_append nth_append)
  then show ?thesis
    using Checksum_flip [OF assms(4,5)]
    by (simp add: verifyBuf_append length_PutUint32 Uint32_PutUint32)
qed

theorem payload_bit_flip_detected_witness:
  "verifyBuf (([1, 2, 3, 4] @ PutUint32 (Checksum [1, 2, 3, 4]))
           [2 := flip_bit 5 (([1, 2, 3, 4] @ PutUint32 (Checksum [1, 2, 3, 4])) ! 2)]) = Inr False"
proof -
  have "(8::int) \<le> 8" "(8::int) mod 4 = 0" "length [1, 2, 3, 4 :: byte] = nat (8 - 4)"
    "2 < length [1, 2, 3, 4 :: byte]" "(5::nat) < 8"
    by simp_all
  then show ?thesis by (rule payload_bit_flip_detected)
qed

text \<open>
  Claim C10.  A block that \<open>fillBuf\<close> returns has the requested size and is not the
  all-zero buffer of that size, the buffer the verifier compares with to find holes; when
  its payload is all zero, the first byte of the trailer is 1.
\<close>

theorem generated_block_not_all_zero:
  assumes "fillBuf s n = Inr (b, s')"
  shows "length b = nat n \<and> b \<noteq> replicate (nat n) 0
       \<and> (take (nat n - 4) b = replicate (nat n - 4) 0 \<longrightarrow> b ! (nat n - 4) = 1)"
proof -
  from fillBuf_Inr [OF assms] obtain b0 where
    n: "8 \<le> n" and l: "length b0 = nat n" and b: "b = addChecksum b0" by blast
  from n l have l4: "4 \<le> length b0" by simp
  have len: "length b = nat n" using b l l4 by (simp add: length_addChecksum)
  have nz: "b \<noteq> replicate (nat n) 0"
    using addChecksum_not_zero [OF l4] b l by simp
  have low: "b ! (nat n - 4) = 1" if "take (nat n - 4) b = replicate (nat n - 4) 0"
  proof -
    have e: "b = take (nat n - 4) b0 @ PutUint32 (Checksum (take (nat n - 4) b0))"
      using b l l4 by (simp add: addChecksum_eq)
    then have "take (nat n - 4) b = take (nat n - 4) b0"
      using l by simp
    with that have p: "take (nat n - 4) b0 = replicate (nat n - 4) 0" by simp
    have "b ! (nat n - 4) = PutUint32 (Checksum (take (nat n - 4) b0)) ! 0"
      using l by (subst e) (simp add: nth_append)
    then show ?thesis by (simp add: p PutUint32_nth0 Checksum_zeros_low)
  qed
  show ?thesis using len nz low by blast
qed

theorem generated_block_not_all_zero_witness:
  "fillBuf (\<lambda>k. 0) 8 = Inr ([0, 0, 0, 0, 1, 0, 4, 0], \<lambda>k. 0)
   \<and> length [0, 0, 0, 0, 1, 0, 4, 0 :: byte] = nat 8
   \<and> [0, 0, 0, 0, 1, 0, 4, 0] \<noteq> replicate (nat 8) (0 :: byte)
   \<and> [0, 0, 0, 0, 1, 0, 4, 0 :: byte] ! (nat 8 - 4) = 1"
proof -
  have f: "fillBuf (\<lambda>k. 0) 8 = Inr ([0, 0, 0, 0, 1, 0, 4, 0], \<lambda>k. 0)"
    apply (simp add: fillBuf_def tmod_def tdiv_def)
    apply (simp add: eval_nat_numeral upt_rec draw_def)
    apply (simp add: addChecksum_def Checksum_def PutUint32_def Let_def)
    done
  show ?thesis
    using generated_block_not_all_zero [OF f] f by simp
qed

section \<open>The claims about the run\<close>

text \<open>
  Claim C2.  When \<open>main\<close> returns, for any mode, seed, generator state and outcome of the
  system calls, with a block count that is not negative: the run did not end in the fatal
  "Verified more non-zero than blocks we wrote", and the count the verification reports
  is at most the number of blocks.
\<close>

theorem verified_count_bounded:
  assumes run: "main e cfg = Some (x, st)"
    and nb: "0 \<le> numBlocks cfg" and F: "fileSz cfg < 2 ^ 63"
  shows "(\<forall>c n. x \<noteq> Fatal (VerifiedMore c n))
       \<and> (\<forall>c \<in> set (verifiedCounts (trace st)). c \<le> numBlocks cfg)"
proof -
  define tot where "tot = wrap64 (tdiv (fileSz cfg) (blockSz cfg))"
  consider (early) "blockSz cfg = 0 \<or> fileSz cfg \<le> blockSz cfg \<or> maxBlocks cfg \<le> minBlocks cfg
        \<or> (mode cfg = ''seq'' \<and> tot < numBlocks cfg) \<or> createFails e
        \<or> ftruncateFails e \<or> fileSz cfg < 0"
    | (loop) "blockSz cfg \<noteq> 0" "blockSz cfg < fileSz cfg" "minBlocks cfg < maxBlocks cfg"
        "mode cfg = ''seq'' \<longrightarrow> numBlocks cfg \<le> tot" "\<not> createFails e" "\<not> ftruncateFails e"
        "0 \<le> fileSz cfg"
    by fastforce
  then show ?thesis
  proof cases
    case early
    with run show ?thesis
      by (auto simp: main_cases tot_def [symmetric] verifiedCounts_append split: if_splits)
  next
    case loop
    with run obtain r where wl: "writeLoop e cfg tot 0 (beforeWrites e cfg) = Some r"
      and res: "(case r of Inl y \<Rightarrow> y | Inr st4 \<Rightarrow> verifyPhase e cfg tot st4) = (x, st)"
      by (auto simp: main_cases tot_def [symmetric] split: option.splits sum.splits)
    note wc = writeLoop_counts [OF wl]
    show ?thesis
    proof (cases r)
      case (Inl y)
      with res wc show ?thesis by auto
    next
      case (Inr st4)
      with res have vp: "verifyPhase e cfg tot st4 = (x, st)" by simp
      have head: "loopHead (blockSz cfg) (beforeWrites e cfg)"
        by (simp add: loopHead_def covered_def)
      from writeLoop_inv [OF wl [unfolded Inr] refl loop(2) F tot_def _ loop(4) head]
      have cov: "covered (blockSz cfg) st4"
        and len: "int (length (writeOffsets (trace st4))) = max 0 (numBlocks cfg)"
        by simp_all
      from wc Inr have nov: "verifiedCounts (trace st4) = []" by simp
      from len nb have len': "int (length (writeOffsets (trace st4))) \<le> numBlocks cfg" by simp
      from verifyPhase_bound [OF vp cov loop(1,2) F tot_def len' nov] show ?thesis .
    qed
  qed
qed

theorem verified_count_bounded_witness:
  "\<exists>st. main (quietEnv (downTape 5) (constTape 0)) (streamCfg 8 64 5 6) = Some (Done, st)
     \<and> (\<forall>c n. Done \<noteq> Fatal (VerifiedMore c n))
     \<and> (\<forall>c \<in> set (verifiedCounts (trace st)). c \<le> numBlocks (streamCfg 8 64 5 6))"
proof -
  from example_run_64 [of 0] obtain st where
    run: "main (quietEnv (downTape 5) (constTape 0)) (streamCfg 8 64 5 6) = Some (Done, st)"
    by auto
  have "(0::int) \<le> numBlocks (streamCfg 8 64 5 6)" "fileSz (streamCfg 8 64 5 6) < 2 ^ 63"
    by simp_all
  from verified_count_bounded [OF run this] run show ?thesis by blast
qed

text \<open>
  Claim C4, as the program has it.  With \<open>stream-min\<close> and \<open>stream-max\<close> both 5 the run stops
  with the fatal "stream-min should be less than stream-max" before the file is created.
  With \<open>stream-min\<close> 5, a \<open>stream-max\<close> above 5, five blocks, a block size of at least 8
  that is a multiple of 4, no failing system call, and a seed for which the start-index
  loop ends at block \<open>s0\<close>: the run writes one contiguous run of five blocks, at the offsets
  of the blocks \<open>s0\<close> to \<open>s0 + 4\<close>, the verification reports 5 blocks, and the blocks that
  do not read as zero are exactly these five.
\<close>

theorem stream_five_blocks:
  "(blockSz cfg \<noteq> 0 \<and> blockSz cfg < fileSz cfg \<and> minBlocks cfg = 5 \<and> maxBlocks cfg = 5
      \<longrightarrow> main e cfg = Some (Fatal StreamMinNotLess, init e cfg) \<and> trace (init e cfg) = [])
   \<and> (mode cfg = ''stream'' \<and> minBlocks cfg = 5 \<and> 5 < maxBlocks cfg \<and> maxBlocks cfg < 2 ^ 62
        \<and> numBlocks cfg = 5 \<and> 8 \<le> blockSz cfg \<and> blockSz cfg mod 4 = 0
        \<and> blockSz cfg < fileSz cfg \<and> fileSz cfg < 2 ^ 63 \<and> quiet e
        \<and> pickStart (NewSource e (seed cfg))
             (5 + int (globalRand e (nat (blockSz cfg))) mod (maxBlocks cfg - 4))
             (fileSz cfg div blockSz cfg) = Some (Inr (s0, r'))
      \<longrightarrow> (\<exists>st. main e cfg = Some (Done, st)
            \<and> writeOffsets (trace st) =
                [s0 * blockSz cfg, (s0 + 1) * blockSz cfg, (s0 + 2) * blockSz cfg,
                 (s0 + 3) * blockSz cfg, (s0 + 4) * blockSz cfg]
            \<and> verifiedCounts (trace st) = [5]
            \<and> (\<forall>j. 0 \<le> j \<and> j < fileSz cfg div blockSz cfg \<longrightarrow>
                  (blockAt cfg st j \<noteq> replicate (nat (blockSz cfg)) 0) = (s0 \<le> j \<and> j < s0 + 5))
            \<and> 0 \<le> s0 \<and> s0 + 5 \<le> fileSz cfg div blockSz cfg))"
proof (intro conjI impI)
  assume "blockSz cfg \<noteq> 0 \<and> blockSz cfg < fileSz cfg \<and> minBlocks cfg = 5 \<and> maxBlocks cfg = 5"
  then show "main e cfg = Some (Fatal StreamMinNotLess, init e cfg)"
    by (simp add: main_cases)
next
  show "trace (init e cfg) = []" by simp
next
  assume a: "mode cfg = ''stream'' \<and> minBlocks cfg = 5 \<and> 5 < maxBlocks cfg \<and> maxBlocks cfg < 2 ^ 62
        \<and> numBlocks cfg = 5 \<and> 8 \<le> blockSz cfg \<and> blockSz cfg mod 4 = 0
        \<and> blockSz cfg < fileSz cfg \<and> fileSz cfg < 2 ^ 63 \<and> quiet e
        \<and> pickStart (NewSource e (seed cfg))
             (5 + int (globalRand e (nat (blockSz cfg))) mod (maxBlocks cfg - 4))
             (fileSz cfg div blockSz cfg) = Some (Inr (s0, r'))"
  then have sb: "5 + int (globalRand e (nat (blockSz cfg))) mod (maxBlocks cfg - 4)
      = minBlocks cfg + int (globalRand e (nat (blockSz cfg))) mod (maxBlocks cfg - minBlocks cfg + 1)"
    by (simp add: algebra_simps)
  from a have ps: "pickStart (NewSource e (seed cfg))
             (5 + int (globalRand e (nat (blockSz cfg))) mod (maxBlocks cfg - 4))
             (fileSz cfg div blockSz cfg) = Some (Inr (s0, r'))" by simp
  have five: "map (\<lambda>t. (s0 + int t) * blockSz cfg) [0..<nat 5] =
      [s0 * blockSz cfg, (s0 + 1) * blockSz cfg, (s0 + 2) * blockSz cfg,
       (s0 + 3) * blockSz cfg, (s0 + 4) * blockSz cfg]"
    by (simp add: upt_rec numeral_eq_Suc)
  from a stream_single_run [OF _ _ _ _ _ _ _ _ _ _ _ refl sb ps]
  have "\<exists>st. main e cfg = Some (Done, st)
     \<and> writeOffsets (trace st) = map (\<lambda>t. (s0 + int t) * blockSz cfg) [0..<nat (numBlocks cfg)]
     \<and> verifiedCounts (trace st) = [numBlocks cfg]
     \<and> (\<forall>j. 0 \<le> j \<and> j < fileSz cfg div blockSz cfg \<longrightarrow>
           (blockAt cfg st j \<noteq> replicate (nat (blockSz cfg)) 0 \<longleftrightarrow> s0 \<le> j \<and> j < s0 + numBlocks cfg))
     \<and> blockAt cfg st s0 = addChecksum (drawn (globalRand e) (nat (blockSz cfg)))
     \<and> 0 \<le> s0 \<and> s0 + numBlocks cfg \<le> fileSz cfg div blockSz cfg"
    by simp
  with a five show "\<exists>st. main e cfg = Some (Done, st)
            \<and> writeOffsets (trace st) =
                [s0 * blockSz cfg, (s0 + 1) * blockSz cfg, (s0 + 2) * blockSz cfg,
                 (s0 + 3) * blockSz cfg, (s0 + 4) * blockSz cfg]
            \<and> verifiedCounts (trace st) = [5]
            \<and> (\<forall>j. 0 \<le> j \<and> j < fileSz cfg div blockSz cfg \<longrightarrow>
                  (blockAt cfg st j \<noteq> replicate (nat (blockSz cfg)) 0) = (s0 \<le> j \<and> j < s0 + 5))
            \<and> 0 \<le> s0 \<and> s0 + 5 \<le> fileSz cfg div blockSz cfg"
    by auto
qed

theorem stream_five_blocks_witness:
  "main (quietEnv (downTape 5) (constTape 0)) (streamCfg 8 64 5 5)
     = Some (Fatal StreamMinNotLess, init (quietEnv (downTape 5) (constTape 0)) (streamCfg 8 64 5 5))
   \<and> (\<exists>st. main (quietEnv (downTape 5) (constTape 0)) (streamCfg 8 64 5 6) = Some (Done, st)
         \<and> writeOffsets (trace st) = [24, 32, 40, 48, 56]
         \<and> verifiedCounts (trace st) = [5])"
proof -
  let ?e = "quietEnv (downTape 5) (constTape 0)"
  have 1: "main ?e (streamCfg 8 64 5 5) = Some (Fatal StreamMinNotLess, init ?e (streamCfg 8 64 5 5))"
    using stream_five_blocks [of "streamCfg 8 64 5 5" ?e] by simp
  have 2: "\<exists>st. main ?e (streamCfg 8 64 5 6) = Some (Done, st)
         \<and> writeOffsets (trace st) = [24, 32, 40, 48, 56]
         \<and> verifiedCounts (trace st) = [5]"
    using stream_five_blocks [of "streamCfg 8 64 5 6" ?e 3 "\<lambda>k. 5 - Suc (Suc (Suc k))"] start_of_8
    by (simp add: constTape_def) blast
  from 1 2 show ?thesis by blast
qed

text \<open>
  Claim C4 as the spec states it fails: with \<open>stream-min\<close> 5, \<open>stream-max\<close> 5 and five
  blocks the run ends in the fatal configuration error, and nothing has happened before.
\<close>

theorem stream_min_equals_max_rejected:
  "outcome (main (quietEnv (downTape 5) (constTape 0)) (streamCfg 4096 1048576 5 5))
     = Some (Fatal StreamMinNotLess, [])"
  by (simp add: outcome_def main_cases)

text \<open>
  Claim C5 fails on the program.  In stream mode, when the file holds fewer blocks than
  \<open>stream-min\<close>, no start block fits whatever the generators return: the checks at the
  start of \<open>main\<close> pass (block size below file size, \<open>stream-min\<close> below \<open>stream-max\<close>),
  the file is created, and the start-index loop of the first iteration never ends.
\<close>

theorem stream_start_loop_never_ends:
  assumes "mode cfg = ''stream''" and "8 \<le> blockSz cfg" and "blockSz cfg mod 4 = 0"
    and "blockSz cfg < fileSz cfg" and "fileSz cfg < 2 ^ 63"
    and "0 \<le> minBlocks cfg" and "minBlocks cfg < maxBlocks cfg" and "maxBlocks cfg < 2 ^ 62"
    and "fileSz cfg div blockSz cfg < minBlocks cfg"
    and "1 \<le> numBlocks cfg" and "\<not> createFails e" and "\<not> ftruncateFails e"
  shows "main e cfg = None"
proof -
  let ?B = "blockSz cfg" and ?F = "fileSz cfg"
  define tot where "tot = ?F div ?B"
  have Bpos: "0 < ?B" using assms(2) by simp
  have tot': "wrap64 (tdiv ?F ?B) = tot"
    unfolding tot_def using Bpos assms(4,5) by (rule totalBlocks_eq)
  have totpos: "0 < tot"
    unfolding tot_def using Bpos assms(4) by (simp add: pos_imp_zdiv_pos_iff)
  define g' where "g' = (\<lambda>k. globalRand e (k + nat ?B))"
  define st where "st = (beforeWrites e cfg)\<lparr>grnd := g'\<rparr>"
  let ?d = "maxBlocks cfg - minBlocks cfg"
  define r where "r = int (g' 0) mod (?d + 1)"
  have "0 < ?d + 1" using assms(7) by simp
  then have r: "0 \<le> r" "r < ?d + 1"
    unfolding r_def by (rule pos_mod_sign, rule pos_mod_bound)
  define sb where "sb = minBlocks cfg + r"
  have sbb: "minBlocks cfg \<le> sb" "sb \<le> maxBlocks cfg" using r by (simp_all add: sb_def)
  have d: "wrap64 (wrap64 ?d + 1) = ?d + 1"
    using assms(6-8) by (simp add: wrap64_id)
  have wsb: "wrap64 sb = sb" using sbb assms(6,8) by (simp add: wrap64_id)
  have div: "pickStart (rnd st) sb tot = None"
  proof (rule pickStart_diverges [OF totpos])
    fix k :: int assume k: "0 \<le> k" "k < tot"
    have "tot < 2 ^ 62" using assms(9,7,8) by (simp add: tot_def)
    then have "wrap64 (k + sb) = k + sb"
      using k sbb assms(6,8) by (intro wrap64_id) simp_all
    then show "tot < wrap64 (k + sb)" using k sbb assms(9) by (simp add: tot_def)
  qed
  have st0: "streamBlocks st = 0" "grnd st = g'" by (simp_all add: st_def)
  have i63: "Int63n (grnd st) (wrap64 (wrap64 ?d + 1)) = Inr (r, \<lambda>k. g' (Suc k))"
    using \<open>0 < ?d + 1\<close> by (simp add: Int63n_def draw_def d r_def st0)
  have ws: "wrap64 (minBlocks cfg + r) = sb" using wsb by (simp add: sb_def)
  have "place cfg tot 0 st = None"
    using assms(1) by (simp add: place_def st0(1) i63 ws div)
  then have "writeBlock e cfg tot 0 (beforeWrites e cfg) = None"
    using assms(2,3) by (simp add: writeBlock_def fillBuf_eq st_def g'_def)
  then have "writeLoop e cfg tot 0 (beforeWrites e cfg) = None"
    using assms(10) by (subst writeLoop.simps) simp
  then show ?thesis
    using assms Bpos by (simp add: main_cases tot')
qed

theorem stream_start_loop_never_ends_witness:
  "main (quietEnv (downTape 5) (constTape 0)) (streamCfg 8 16 5 30) = None"
  by (rule stream_start_loop_never_ends) simp_all

text \<open>
  Claim C6, as the program has it.  A block size below 8 (and not 0) or not a multiple
  of 4 is found by \<open>fillBuf\<close> in the first iteration of the write loop: when the three
  checks at the start of \<open>main\<close> pass, the file can be created and truncated and the block
  count is at least 1, the run ends in the fatal of \<open>fillBuf\<close>, after the file was created
  and truncated to its size, before any byte was drawn and before any write.
\<close>

theorem small_block_fatal_after_create:
  assumes "blockSz cfg < 8 \<or> blockSz cfg mod 4 \<noteq> 0" and "blockSz cfg \<noteq> 0"
    and "blockSz cfg < fileSz cfg" and "0 \<le> fileSz cfg" and "minBlocks cfg < maxBlocks cfg"
    and "mode cfg = ''seq'' \<longrightarrow> numBlocks cfg \<le> wrap64 (tdiv (fileSz cfg) (blockSz cfg))"
    and "1 \<le> numBlocks cfg" and "\<not> createFails e" and "\<not> ftruncateFails e"
  shows "main e cfg =
           Some (Fatal (if blockSz cfg < 8 then BufferTooSmall else BufferNotMultiple),
                 beforeWrites e cfg)
       \<and> trace (beforeWrites e cfg) =
           [Println (''Create file: '' @ fileName cfg), Create (fileName cfg),
            Println ''Ftruncate file'', EvFtruncate (fileSz cfg), Println ''Write data'']
       \<and> grnd (beforeWrites e cfg) = globalRand e"
proof -
  have fb: "fillBuf (globalRand e) (blockSz cfg) =
      Inl (if blockSz cfg < 8 then BufferTooSmall else BufferNotMultiple)"
    using assms(1) by (auto simp: fillBuf_def tmod_nonneg)
  then have "writeBlock e cfg (wrap64 (tdiv (fileSz cfg) (blockSz cfg))) 0 (beforeWrites e cfg) =
      Some (Inl (Fatal (if blockSz cfg < 8 then BufferTooSmall else BufferNotMultiple),
                 beforeWrites e cfg))"
    by (simp add: writeBlock_def)
  then have "writeLoop e cfg (wrap64 (tdiv (fileSz cfg) (blockSz cfg))) 0 (beforeWrites e cfg) =
      Some (Inl (Fatal (if blockSz cfg < 8 then BufferTooSmall else BufferNotMultiple),
                 beforeWrites e cfg))"
    using assms(7) by (subst writeLoop.simps) simp
  then show ?thesis
    using assms by (auto simp: main_cases)
qed

theorem small_block_fatal_after_create_witness:
  "main (quietEnv (downTape 5) (constTape 0)) (streamCfg 10 64 5 30) =
     Some (Fatal BufferNotMultiple,
           beforeWrites (quietEnv (downTape 5) (constTape 0)) (streamCfg 10 64 5 30))
   \<and> trace (beforeWrites (quietEnv (downTape 5) (constTape 0)) (streamCfg 10 64 5 30)) =
       [Println ''Create file: disk.img'', Create ''disk.img'', Println ''Ftruncate file'',
        EvFtruncate 64, Println ''Write data'']"
  using small_block_fatal_after_create
    [of "streamCfg 10 64 5 30" "quietEnv (downTape 5) (constTape 0)"]
  by simp

text \<open>
  Claim C6 as the spec states it fails: with block size 4 the file has been created and
  truncated when the run ends in "Buffer needs at least 8B".
\<close>

theorem small_block_file_created_first:
  "outcome (main (quietEnv (downTape 5) (constTape 0)) (streamCfg 4 16 5 30)) =
     Some (Fatal BufferTooSmall,
       [Println ''Create file: disk.img'', Create ''disk.img'', Println ''Ftruncate file'',
        EvFtruncate 16, Println ''Write data''])"
proof -
  have "writeBlock (quietEnv (downTape 5) (constTape 0)) (streamCfg 4 16 5 30) 4 0
          (beforeWrites (quietEnv (downTape 5) (constTape 0)) (streamCfg 4 16 5 30)) =
      Some (Inl (Fatal BufferTooSmall,
         beforeWrites (quietEnv (downTape 5) (constTape 0)) (streamCfg 4 16 5 30)))"
    by (simp add: writeBlock_def fillBuf_def)
  then have "writeLoop (quietEnv (downTape 5) (constTape 0)) (streamCfg 4 16 5 30) 4 0
          (beforeWrites (quietEnv (downTape 5) (constTape 0)) (streamCfg 4 16 5 30)) =
      Some (Inl (Fatal BufferTooSmall,
         beforeWrites (quietEnv (downTape 5) (constTape 0)) (streamCfg 4 16 5 30)))"
    by (subst writeLoop.simps) simp
  then show ?thesis
    by (simp add: outcome_def main_cases tdiv_def wrap64_def)
qed

text \<open>
  Claim C7 fails on the program.  For a block size that satisfies the checks (at least 8,
  a multiple of 4) but is not a multiple of 16, a non-zero block whose checksum does not
  match makes \<open>printBuf\<close> read past the end of the buffer: the scan ends in a panic at
  that block instead of going on.
\<close>

theorem mismatch_dump_panics:
  assumes "8 \<le> blockSz cfg" and "blockSz cfg mod 4 = 0" and "blockSz cfg mod 16 \<noteq> 0"
    and "i < tot" and "\<not> readFailed e cfg i st"
    and "blockAt cfg st i \<noteq> replicate (nat (blockSz cfg)) 0"
    and "verifyBuf (blockAt cfg st i) = Inr False"
  shows "\<exists>c' st'. verifyLoop e cfg tot i c st = (Some IndexOutOfRange, c', st')"
proof -
  have "length (blockAt cfg st i) mod 16 \<noteq> 0"
  proof -
    have "int (nat (blockSz cfg) mod 16) = blockSz cfg mod 16"
      using assms(1) by (simp add: zmod_int)
    with assms(3) show ?thesis by auto
  qed
  from printBuf_panics [OF this] obtain st4 where
    "printBuf (blockAt cfg st i) (emit (DidNotVerify i) (countedState cfg i st))
       = (Some IndexOutOfRange, st4)" by blast
  with assms(5-7) have "verifyBlock e cfg i c st = (Some IndexOutOfRange, c + 1, st4)"
    by (simp add: verifyBlock_cases)
  with assms(4) show ?thesis by (subst verifyLoop.simps) simp
qed

theorem mismatch_dump_panics_witness:
  "\<exists>c' st'. verifyLoop (quietEnv (downTape 5) (constTape 0)) (streamCfg 8 16 5 30) 2 0 0
      (WriteAt [1, 0, 0, 0, 0, 0, 0, 0] 0
         (beforeWrites (quietEnv (downTape 5) (constTape 0)) (streamCfg 8 16 5 30)))
     = (Some IndexOutOfRange, c', st')"
proof (rule mismatch_dump_panics)
  let ?st = "WriteAt [1, 0, 0, 0, 0, 0, 0, 0] 0
         (beforeWrites (quietEnv (downTape 5) (constTape 0)) (streamCfg 8 16 5 30))"
  have b: "blockAt (streamCfg 8 16 5 30) ?st 0 = [1, 0, 0, 0, 0, 0, 0, 0]"
    by (simp add: blockAt_def wrap64_def readBytes_WriteAt_same)
  show "\<not> readFailed (quietEnv (downTape 5) (constTape 0)) (streamCfg 8 16 5 30) 0 ?st"
    by (simp add: readFailed_def wrap64_def quietEnv_def)
  have rep8: "replicate 8 x = [x, x, x, x, x, x, x, x]" for x :: byte
    by (simp add: eval_nat_numeral)
  show "blockAt (streamCfg 8 16 5 30) ?st 0 \<noteq> replicate (nat (blockSz (streamCfg 8 16 5 30))) 0"
    by (simp add: b rep8)
  show "verifyBuf (blockAt (streamCfg 8 16 5 30) ?st 0) = Inr False"
    by (simp add: b verifyBuf_def Checksum_def Uint32_def Let_def)
qed simp_all

text \<open>
  Claim C8 fails on the program.  Two runs with the same flags and the same generator for
  the seed, which differ only in the state of the package-level generator of \<open>math/rand\<close>:
  both write their first block at block 3, with different bytes.  The payload (and the
  length of a stream) is drawn from the package-level generator, not from the generator
  seeded by the flag.
\<close>

theorem payload_not_from_seeded_stream:
  "blockReport (streamCfg 8 64 5 6) 3
       (main (quietEnv (downTape 5) (constTape 0)) (streamCfg 8 64 5 6))
     = Some (Done, [0, 0, 0, 0, 1, 0, 4, 0])
   \<and> blockReport (streamCfg 8 64 5 6) 3
       (main (quietEnv (downTape 5) (constTape 2)) (streamCfg 8 64 5 6))
     = Some (Done, [2, 2, 2, 2, 9, 0, 24, 0])"
proof -
  have upt8: "[0..<8] = [0, 1, 2, 3, 4, 5, 6, 7]" by (simp add: upt_rec)
  have d: "addChecksum (drawn (constTape v) 8) =
      [of_int (int v mod 255), of_int (int v mod 255), of_int (int v mod 255), of_int (int v mod 255)]
        @ PutUint32 (Checksum [of_int (int v mod 255), of_int (int v mod 255),
             of_int (int v mod 255), of_int (int v mod 255)])" for v
    by (simp add: addChecksum_eq drawn_def constTape_def upt8)
  have 0: "addChecksum (drawn (constTape 0) 8) = [0, 0, 0, 0, 1, 0, 4, 0]"
    by (simp add: d Checksum_def PutUint32_def)
  have 2: "addChecksum (drawn (constTape 2) 8) = [2, 2, 2, 2, 9, 0, 24, 0]"
    by (simp add: d Checksum_def PutUint32_def)
  from example_run_64 [of 0] example_run_64 [of 2] 0 2 show ?thesis
    by (auto simp: blockReport_def)
qed

text \<open>
  Claim C9, as the program has it.  A run that ends normally has read one stride at each
  of the offsets \<open>j * blockSz\<close> for \<open>j\<close> from 0 below \<open>fileSz div blockSz\<close>, in this order:
  the block-aligned offsets whose whole stride lies within the file.
\<close>

theorem scan_reads_whole_blocks:
  assumes "main e cfg = Some (Done, st)" and "fileSz cfg < 2 ^ 63"
  shows "readOffsets (trace st) = map (\<lambda>j. j * blockSz cfg) [0..fileSz cfg div blockSz cfg - 1]
       \<and> (\<forall>pos. pos \<in> set (readOffsets (trace st)) \<longleftrightarrow>
             0 \<le> pos \<and> blockSz cfg dvd pos \<and> pos + blockSz cfg \<le> fileSz cfg)"
proof -
  from main_reads [OF assms] have B: "0 < blockSz cfg"
    and r: "readOffsets (trace st) = map (\<lambda>j. j * blockSz cfg) [0..fileSz cfg div blockSz cfg - 1]"
    by simp_all
  from whole_block_offsets [OF B, of _ "fileSz cfg"] r show ?thesis by simp
qed

theorem scan_reads_whole_blocks_witness:
  "\<exists>st. main (quietEnv (downTape 5) (constTape 0)) (streamCfg 8 64 5 6) = Some (Done, st)
     \<and> readOffsets (trace st) = [0, 8, 16, 24, 32, 40, 48, 56]"
proof -
  from example_run_64 [of 0] obtain st where
    run: "main (quietEnv (downTape 5) (constTape 0)) (streamCfg 8 64 5 6) = Some (Done, st)"
    by auto
  have "fileSz (streamCfg 8 64 5 6) < 2 ^ 63" by simp
  from scan_reads_whole_blocks [OF run this] run show ?thesis
    by (simp add: upto_rec1) 
qed

text \<open>
  Claim C9 as the spec states it fails: with a file of 100 bytes and blocks of 8 bytes
  the last offset read is 88; the block-aligned offset 96, below the file size, is not
  read.
\<close>

theorem partial_last_stride_not_read:
  "readReport (main (quietEnv (downTape 5) (constTape 0)) (streamCfg 8 100 5 6))
     = Some (Done, [0, 8, 16, 24, 32, 40, 48, 56, 64, 72, 80, 88])"
proof -
  from example_run_100 obtain st where
    run: "main (quietEnv (downTape 5) (constTape 0)) (streamCfg 8 100 5 6) = Some (Done, st)"
    by auto
  have "fileSz (streamCfg 8 100 5 6) < 2 ^ 63" by simp
  from main_reads [OF run this] run show ?thesis
    by (simp add: readReport_def upto_rec1)
qed

end
